theory Spec2Isabelle
  imports Main "HOL-Library.Word"
begin

section \<open>The rope: a skip list indexed by identifier\<close>

text \<open>
  The embedding follows the Go sources \<^verbatim>\<open>types.go\<close>, \<^verbatim>\<open>util.go\<close> and the
  implementation file of package \<^verbatim>\<open>rope\<close>.

  \<^item> Go's \<^verbatim>\<open>int\<close> is a 64-bit two's complement integer: lengths, positions and
    \<^verbatim>\<open>subtreesize\<close> counters are \<open>64 word\<close>; \<open>+\<close> and \<open>-\<close> wrap, comparisons
    are the signed ones (\<open>word_sless\<close>, \<open>word_sle\<close>).
  \<^item> List heights and slice indices are natural numbers (they stay within \<open>0..32\<close>).
  \<^item> Nodes live in an explicit store: a pointer \<^verbatim>\<open>*ropeNode\<close> is an address
    (\<open>nat\<close>), \<^verbatim>\<open>nil\<close> is \<open>None\<close>. The head node, embedded in \<^verbatim>\<open>ropeImpl\<close>, lives at
    address \<open>0\<close>. \<open>nalloc\<close> is the allocator: the next address never handed out.
  \<^item> The zero value of the identifier type and of the payload type is \<open>0\<close> of
    class \<open>zero\<close>.
  \<^item> A function that may panic (nil dereference, index out of range) or loop
    for ever returns an \<open>option\<close>: \<open>None\<close> stands for a call that does not
    return normally.
\<close>

type_synonym gint = "64 word"
type_synonym addr = nat

definition poolSize :: nat where "poolSize = 8"
definition maxHeight :: nat where "maxHeight = 32"

record 't DataLen =
  Len :: gint
  Data :: 't

record ropeLevel =
  next_n :: "addr option"
  prev_n :: "addr option"
  subtreesize :: gint

record iterRef =
  count_i :: gint
  node_i :: "addr option"

text \<open>
  \<open>levels\<close> is the slice as the code sees it (\<^verbatim>\<open>len(levels)\<close> elements);
  \<open>spare\<close> holds the elements of its backing array beyond the length, so that
  \<^verbatim>\<open>cap(levels)\<close> is \<open>length levels + length spare\<close>.
\<close>

record ('id, 't) ropeNode =
  id_n :: 'id
  dl :: "'t DataLen"
  levels :: "ropeLevel list"
  spare :: "ropeLevel list"
  iterRef :: "iterRef option"

record ('id, 't) Removed =
  Id_r :: 'id
  Len_r :: gint
  Data_r :: 't

record ('id, 't) Info =
  Id_i :: 'id
  Next_i :: 'id
  Prev_i :: 'id
  DataLen_i :: "'t DataLen"

record ('id, 't) ropeImpl =
  nodes :: "addr \<Rightarrow> ('id, 't) ropeNode"
  nalloc :: addr
  len :: gint
  byId :: "'id \<rightharpoonup> addr"
  height :: nat
  nodePool :: "addr list"
  lastId :: 'id

record ropeSeek =
  node_s :: "addr option"
  sub :: gint

datatype error = ErrBadAnchor | ErrIdExists | ErrNegativeLength

definition head :: addr where "head = 0"

definition zeroLevel :: ropeLevel where
  "zeroLevel = \<lparr>next_n = None, prev_n = None, subtreesize = 0\<rparr>"

definition zeroDataLen :: "('t::zero) DataLen" where
  "zeroDataLen = \<lparr>Len = 0, Data = 0\<rparr>"

definition zeroNode :: "('id::zero, 't::zero) ropeNode" where
  "zeroNode = \<lparr>id_n = 0, dl = zeroDataLen, levels = [], spare = [], iterRef = None\<rparr>"

definition zeroInfo :: "('id::zero, 't::zero) Info" where
  "zeroInfo = \<lparr>Id_i = 0, Next_i = 0, Prev_i = 0, DataLen_i = zeroDataLen\<rparr>"

definition zeroSeek :: ropeSeek where
  "zeroSeek = \<lparr>node_s = None, sub = 0\<rparr>"

subsection \<open>Construction\<close>

definition NewRoot :: "'t \<Rightarrow> ('id::zero, 't::zero) ropeImpl" where
  "NewRoot root =
     \<lparr>nodes = (\<lambda>_. zeroNode)
        (head := \<lparr>id_n = 0, dl = \<lparr>Len = 0, Data = root\<rparr>,
                  levels = [\<lparr>next_n = None, prev_n = Some head, subtreesize = 0\<rparr>],
                  spare = replicate (maxHeight - 1) zeroLevel,
                  iterRef = None\<rparr>),
      nalloc = 1,
      len = 0,
      byId = [0 \<mapsto> head],
      height = 1,
      nodePool = [],
      lastId = 0\<rparr>"

definition New :: "('id::zero, 't::zero) ropeImpl" where
  "New = NewRoot 0"

subsection \<open>Random height\<close>

text \<open>\<^verbatim>\<open>bits.TrailingZeros32\<close>: the number of trailing zero bits, 32 for the word 0.\<close>

definition TrailingZeros32 :: "32 word \<Rightarrow> nat" where
  "TrailingZeros32 w = length (takeWhile (\<lambda>n. \<not> bit w n) [0..<32])"

definition randomHeight :: "32 word \<Rightarrow> nat" where
  "randomHeight rnd =
     (let h = 1 + TrailingZeros32 rnd in if h > maxHeight then maxHeight else h)"

subsection \<open>Queries\<close>

definition Len_rope :: "('id, 't) ropeImpl \<Rightarrow> gint" where
  "Len_rope r = len r"

definition LastId :: "('id, 't) ropeImpl \<Rightarrow> 'id" where
  "LastId r = lastId r"

text \<open>The loop of \<^verbatim>\<open>Find\<close>: climb to the head along the top level of each node.\<close>

partial_function (option) Find_loop ::
  "(addr \<Rightarrow> ('id, 't) ropeNode) \<Rightarrow> addr \<Rightarrow> gint \<Rightarrow> gint option" where
  "Find_loop ns node pos =
     (if node = head then Some pos
      else if levels (ns node) = [] then None
      else
        let link = length (levels (ns node)) - 1 in
        case prev_n (levels (ns node) ! link) of
          None \<Rightarrow> None
        | Some p \<Rightarrow>
            if link < length (levels (ns p))
            then Find_loop ns p (pos + subtreesize (levels (ns p) ! link))
            else None)"

declare Find_loop.simps [code]

definition Find :: "('id, 't) ropeImpl \<Rightarrow> 'id \<Rightarrow> gint option" where
  "Find r i =
     (case byId r i of
        None \<Rightarrow> Some (- 1)
      | Some e \<Rightarrow>
          (case Find_loop (nodes r) e 0 of
             None \<Rightarrow> None
           | Some pos \<Rightarrow> Some (pos + Len (dl (nodes r e)))))"

definition Info :: "('id::zero, 't::zero) ropeImpl \<Rightarrow> 'id \<Rightarrow> ('id, 't) Info option" where
  "Info r i =
     (case byId r i of
        None \<Rightarrow> Some zeroInfo
      | Some n \<Rightarrow>
          (case levels (nodes r n) of
             [] \<Rightarrow> None
           | ol # _ \<Rightarrow>
               (case prev_n ol of
                  None \<Rightarrow> None
                | Some p \<Rightarrow>
                    Some \<lparr>Id_i = id_n (nodes r n),
                          Next_i = (case next_n ol of None \<Rightarrow> 0
                                    | Some nx \<Rightarrow> id_n (nodes r nx)),
                          Prev_i = id_n (nodes r p),
                          DataLen_i = dl (nodes r n)\<rparr>)))"

text \<open>
  \<^verbatim>\<open>ByPosition\<close>, first inner loop at height \<open>h\<close>: the flag of the result says
  whether the loop left through \<^verbatim>\<open>continue outer\<close>.
\<close>

partial_function (option) bp_advance ::
  "(addr \<Rightarrow> ('id, 't) ropeNode) \<Rightarrow> nat \<Rightarrow> addr \<Rightarrow> gint \<Rightarrow> (addr \<times> gint \<times> bool) option" where
  "bp_advance ns h e position =
     (if h < length (levels (ns e)) then
        (if word_sless (subtreesize (levels (ns e) ! h)) position then
           (case next_n (levels (ns e) ! h) of
              None \<Rightarrow> Some (e, position - subtreesize (levels (ns e) ! h), True)
            | Some nx \<Rightarrow> bp_advance ns h nx (position - subtreesize (levels (ns e) ! h)))
         else Some (e, position, False))
      else None)"

declare bp_advance.simps [code]

text \<open>Second inner loop: with \<^verbatim>\<open>biasAfter\<close>, move forward as far as possible.\<close>

partial_function (option) bp_bias ::
  "(addr \<Rightarrow> ('id, 't) ropeNode) \<Rightarrow> bool \<Rightarrow> nat \<Rightarrow> addr \<Rightarrow> gint \<Rightarrow> (addr \<times> gint) option" where
  "bp_bias ns biasAfter h e position =
     (if \<not> biasAfter then Some (e, position)
      else if h < length (levels (ns e)) then
        (if word_sle (subtreesize (levels (ns e) ! h)) position then
           (case next_n (levels (ns e) ! h) of
              None \<Rightarrow> Some (e, position)
            | Some nx \<Rightarrow> bp_bias ns biasAfter h nx (position - subtreesize (levels (ns e) ! h)))
         else Some (e, position))
      else None)"

declare bp_bias.simps [code]

text \<open>The outer loop, \<open>n\<close> levels still to go: the current height is \<open>n - 1\<close>.\<close>

fun bp_descend ::
  "(addr \<Rightarrow> ('id, 't) ropeNode) \<Rightarrow> bool \<Rightarrow> nat \<Rightarrow> addr \<Rightarrow> gint \<Rightarrow> (addr \<times> gint) option" where
  "bp_descend ns biasAfter 0 e position = Some (e, position)"
| "bp_descend ns biasAfter (Suc h) e position =
     (case bp_advance ns h e position of
        None \<Rightarrow> None
      | Some (e1, p1, continue_outer) \<Rightarrow>
          if continue_outer then bp_descend ns biasAfter h e1 p1
          else
            (case bp_bias ns biasAfter h e1 p1 of
               None \<Rightarrow> None
             | Some (e2, p2) \<Rightarrow> bp_descend ns biasAfter h e2 p2))"

definition ByPosition ::
  "('id::zero, 't) ropeImpl \<Rightarrow> gint \<Rightarrow> bool \<Rightarrow> ('id \<times> gint) option" where
  "ByPosition r position biasAfter =
     (if word_sless position 0 \<or> (\<not> biasAfter \<and> position = 0) then Some (0, 0)
      else if word_sless (len r) position \<or> (biasAfter \<and> position = len r)
      then Some (lastId r, 0)
      else
        (case bp_descend (nodes r) biasAfter (height r) head position of
           None \<Rightarrow> None
         | Some (e, p) \<Rightarrow> Some (id_n (nodes r e), Len (dl (nodes r e)) - p)))"

subsection \<open>Splice\<close>

text \<open>Writing one level of one node: \<^verbatim>\<open>a.levels[j] = f(a.levels[j])\<close>.\<close>

definition upd_level ::
  "(addr \<Rightarrow> ('id, 't) ropeNode) \<Rightarrow> addr \<Rightarrow> nat \<Rightarrow> (ropeLevel \<Rightarrow> ropeLevel)
     \<Rightarrow> (addr \<Rightarrow> ('id, 't) ropeNode)" where
  "upd_level ns a j f = ns(a := (ns a)\<lparr>levels := (levels (ns a))[j := f (levels (ns a) ! j)]\<rparr>)"

text \<open>The seek phase. Inner loop: \<^verbatim>\<open>for i < nl { seek[i] = cseek; i++ }\<close>.\<close>

function seek_fill ::
  "ropeSeek list \<Rightarrow> ropeSeek \<Rightarrow> nat \<Rightarrow> nat \<Rightarrow> (ropeSeek list \<times> nat) option" where
  "seek_fill seek cseek i nl =
     (if i < nl then
        (if i < length seek then seek_fill (seek[i := cseek]) cseek (Suc i) nl else None)
      else Some (seek, i))"
  by pat_completeness auto
termination
  by (relation "measure (\<lambda>(seek, cseek, i, nl). nl - i)") auto

declare seek_fill.simps [simp del]

partial_function (option) seek_loop ::
  "(addr \<Rightarrow> ('id, 't) ropeNode) \<Rightarrow> nat \<Rightarrow> ropeSeek list \<Rightarrow> addr \<Rightarrow> gint \<Rightarrow> nat
     \<Rightarrow> (ropeSeek list \<times> addr \<times> gint) option" where
  "seek_loop ns hgt seek cn cs i =
     (case seek_fill seek \<lparr>node_s = Some cn, sub = cs\<rparr> i (length (levels (ns cn))) of
        None \<Rightarrow> None
      | Some (seek1, i1) \<Rightarrow>
          if cn = head \<or> i1 = hgt then Some (seek1, cn, cs)
          else if i1 = 0 \<or> length (levels (ns cn)) \<le> i1 - 1 then None
          else
            (case prev_n (levels (ns cn) ! (i1 - 1)) of
               None \<Rightarrow> None
             | Some p \<Rightarrow>
                 if i1 - 1 < length (levels (ns p))
                 then seek_loop ns hgt seek1 p (cs + subtreesize (levels (ns p) ! (i1 - 1))) i1
                 else None))"

declare seek_loop.simps [code]

text \<open>
  The delete phase, the loop over the levels \<open>j\<close> for one removed node \<open>e\<close>.
  The writes happen in the order of the source, each on the store left by the
  previous one.
\<close>

function del_levels ::
  "(addr \<Rightarrow> ('id, 't) ropeNode) \<Rightarrow> nat \<Rightarrow> ropeSeek list \<Rightarrow> addr \<Rightarrow> nat
     \<Rightarrow> (addr \<Rightarrow> ('id, 't) ropeNode) option" where
  "del_levels ns hgt seek e j =
     (if j < hgt then
        (if length seek \<le> j then None
         else case node_s (seek ! j) of
           None \<Rightarrow> None
         | Some n \<Rightarrow>
             if length (levels (ns n)) \<le> j then None
             else if length (levels (ns e)) \<le> j then
               del_levels
                 (upd_level ns n j (\<lambda>l. l\<lparr>subtreesize := subtreesize l - Len (dl (ns e))\<rparr>))
                 hgt seek e (Suc j)
             else
               let el = levels (ns e) ! j;
                   ns1 = upd_level ns n j
                     (\<lambda>l. l\<lparr>subtreesize := subtreesize l + (subtreesize el - Len (dl (ns e)))\<rparr>)
               in
               (case next_n el of
                  None \<Rightarrow>
                    del_levels (upd_level ns1 n j (\<lambda>l. l\<lparr>next_n := None\<rparr>)) hgt seek e (Suc j)
                | Some nx \<Rightarrow>
                    if length (levels (ns1 nx)) \<le> j then None
                    else
                      del_levels
                        (upd_level (upd_level ns1 nx j (\<lambda>l. l\<lparr>prev_n := Some n\<rparr>))
                           n j (\<lambda>l. l\<lparr>next_n := Some nx\<rparr>))
                        hgt seek e (Suc j)))
      else Some ns)"
  by pat_completeness auto
termination
  by (relation "measure (\<lambda>(ns, hgt, seek, e, j). hgt - j)") auto

declare del_levels.simps [simp del]

definition returnToPool :: "addr \<Rightarrow> ('id::zero, 't::zero) ropeImpl \<Rightarrow> ('id, 't) ropeImpl" where
  "returnToPool e r =
     (if length (nodePool r) = poolSize \<or> iterRef (nodes r e) \<noteq> None then r
      else r\<lparr>nodes := (nodes r)
                (e := (nodes r e)\<lparr>levels := map (\<lambda>_. zeroLevel) (levels (nodes r e)),
                                  dl := zeroDataLen,
                                  id_n := 0\<rparr>),
              nodePool := nodePool r @ [e]\<rparr>)"

text \<open>One round of the delete loop removes the successor \<open>e\<close> of the anchor.\<close>

definition delete_one ::
  "('id::zero, 't::zero) ropeImpl \<Rightarrow> ropeSeek list \<Rightarrow> addr
     \<Rightarrow> (('id, 't) Removed \<times> ('id, 't) ropeImpl) option" where
  "delete_one r seek e =
     (let en = nodes r e;
          rec = \<lparr>Id_r = id_n en, Len_r = Len (dl en), Data_r = Data (dl en)\<rparr>
      in
      case (case iterRef en of
              None \<Rightarrow> Some (nodes r)
            | Some ir \<Rightarrow>
                (case levels en of
                   [] \<Rightarrow> None
                 | e0 # _ \<Rightarrow>
                     Some ((nodes r)(e := en\<lparr>iterRef := Some (ir\<lparr>node_i := prev_n e0\<rparr>)\<rparr>)))) of
        None \<Rightarrow> None
      | Some ns1 \<Rightarrow>
          (case del_levels ns1 (height r) seek e 0 of
             None \<Rightarrow> None
           | Some ns2 \<Rightarrow>
               Some (rec,
                     returnToPool e
                       (r\<lparr>nodes := ns2,
                          byId := (byId r)(id_n en := None),
                          len := len r - Len (dl en)\<rparr>))))"

partial_function (option) delete_loop ::
  "('id::zero, 't::zero) ropeImpl \<Rightarrow> ropeSeek list \<Rightarrow> addr \<Rightarrow> 'id
     \<Rightarrow> ('id, 't) Removed list \<Rightarrow> (('id, 't) Removed list \<times> ('id, 't) ropeImpl) option" where
  "delete_loop r seek after deleteUntil removed =
     (case levels (nodes r after) of
        [] \<Rightarrow> None
      | l0 # _ \<Rightarrow>
          (case next_n l0 of
             None \<Rightarrow> Some (removed, r\<lparr>lastId := id_n (nodes r after)\<rparr>)
           | Some e \<Rightarrow>
               (case delete_one r seek e of
                  None \<Rightarrow> None
                | Some (rec, r1) \<Rightarrow>
                    if Id_r rec = deleteUntil then Some (removed @ [rec], r1)
                    else delete_loop r1 seek after deleteUntil (removed @ [rec]))))"

declare delete_loop.simps [code]

definition delete_phase ::
  "('id::zero, 't::zero) ropeImpl \<Rightarrow> ropeSeek list \<Rightarrow> addr \<Rightarrow> 'id
     \<Rightarrow> (('id, 't) Removed list \<times> ('id, 't) ropeImpl) option" where
  "delete_phase r seek after deleteUntil =
     (case delete_loop r seek after deleteUntil [] of
        None \<Rightarrow> None
      | Some (removed, r1) \<Rightarrow>
          Some (removed,
                if byId r1 (lastId r1) = None then r1\<lparr>lastId := id_n (nodes r1 after)\<rparr>
                else r1))"

text \<open>
  The insert phase. First the new node: taken back from the pool when there is
  one, allocated otherwise. \<open>h\<close> is the value of \<^verbatim>\<open>randomHeight()\<close>.
\<close>

definition new_node ::
  "('id, 't) ropeImpl \<Rightarrow> nat \<Rightarrow> 'id \<Rightarrow> gint \<Rightarrow> 't \<Rightarrow> addr \<times> ('id, 't) ropeImpl" where
  "new_node r h insertId length_n data =
     (if nodePool r \<noteq> [] then
        let idx = length (nodePool r) - 1;
            a = nodePool r ! idx;
            old = nodes r a;
            arr = levels old @ spare old
        in
        (a, r\<lparr>nodePool := take idx (nodePool r),
              nodes := (nodes r)
                (a := old\<lparr>id_n := insertId,
                          dl := \<lparr>Len = length_n, Data = data\<rparr>,
                          levels := (if length arr < h then replicate h zeroLevel else take h arr),
                          spare := (if length arr < h then [] else drop h arr)\<rparr>)\<rparr>)
      else
        (nalloc r,
         r\<lparr>nalloc := Suc (nalloc r),
           nodes := (nodes r)
             (nalloc r := \<lparr>id_n = insertId,
                           dl = \<lparr>Len = length_n, Data = data\<rparr>,
                           levels = replicate h zeroLevel,
                           spare = [],
                           iterRef = None\<rparr>)\<rparr>))"

text \<open>The walk of the grow branch: \<^verbatim>\<open>for cseek.node != &r.head { ... }\<close>.\<close>

partial_function (option) head_walk ::
  "(addr \<Rightarrow> ('id, 't) ropeNode) \<Rightarrow> nat \<Rightarrow> addr \<Rightarrow> gint \<Rightarrow> (addr \<times> gint) option" where
  "head_walk ns link cn cs =
     (if cn = head then Some (cn, cs)
      else if length (levels (ns cn)) \<le> link then None
      else
        (case prev_n (levels (ns cn) ! link) of
           None \<Rightarrow> None
         | Some p \<Rightarrow>
             if link < length (levels (ns p))
             then head_walk ns link p (cs + subtreesize (levels (ns p) ! link))
             else None))"

declare head_walk.simps [code]

text \<open>
  \<^verbatim>\<open>r.head.levels = append(r.head.levels, l)\<close>: within the capacity the element goes
  into the backing array, beyond it the slice moves to a new array.
\<close>

definition append_level :: "('id, 't) ropeNode \<Rightarrow> ropeLevel \<Rightarrow> ('id, 't) ropeNode" where
  "append_level n l = n\<lparr>levels := levels n @ [l], spare := tl (spare n)\<rparr>"

function ins_levels ::
  "('id, 't) ropeImpl \<Rightarrow> ropeSeek list \<Rightarrow> addr \<Rightarrow> nat \<Rightarrow> gint \<Rightarrow> addr \<Rightarrow> gint \<Rightarrow> nat
     \<Rightarrow> (('id, 't) ropeImpl \<times> nat) option" where
  "ins_levels r seek newNode h length_n cn cs i =
     (if i < h then
        (if i < height r then
           (if length seek \<le> i then None
            else case node_s (seek ! i) of
              None \<Rightarrow> None
            | Some n \<Rightarrow>
                if length (levels (nodes r n)) \<le> i then None
                else
                  let next = next_n (levels (nodes r n) ! i) in
                  (case (case next of
                           None \<Rightarrow> Some (nodes r)
                         | Some nx \<Rightarrow>
                             if length (levels (nodes r nx)) \<le> i then None
                             else Some (upd_level (nodes r) nx i
                                          (\<lambda>l. l\<lparr>prev_n := Some newNode\<rparr>))) of
                     None \<Rightarrow> None
                   | Some ns1 \<Rightarrow>
                       if length (levels (ns1 newNode)) \<le> i then None
                       else
                         let st = sub (seek ! i);
                             ns2 = upd_level ns1 newNode i
                               (\<lambda>_. \<lparr>next_n = next, prev_n = Some n,
                                     subtreesize =
                                       length_n + subtreesize (levels (ns1 n) ! i) - st\<rparr>);
                             ns3 = upd_level ns2 n i (\<lambda>l. l\<lparr>next_n := Some newNode\<rparr>);
                             ns4 = upd_level ns3 n i (\<lambda>l. l\<lparr>subtreesize := st\<rparr>)
                         in ins_levels (r\<lparr>nodes := ns4\<rparr>) seek newNode h length_n cn cs (Suc i)))
         else
           (if cn \<noteq> head \<and> levels (nodes r cn) = [] then None
            else
              case head_walk (nodes r) (length (levels (nodes r cn)) - 1) cn cs of
                None \<Rightarrow> None
              | Some (cn1, cs1) \<Rightarrow>
                  let ns1 = (nodes r)
                        (head := append_level (nodes r head)
                           \<lparr>next_n = Some newNode, prev_n = Some head, subtreesize = cs1\<rparr>)
                  in
                  if length (levels (ns1 newNode)) \<le> i then None
                  else
                    ins_levels
                      (r\<lparr>nodes := upd_level ns1 newNode i
                            (\<lambda>_. \<lparr>next_n = None, prev_n = Some head,
                                  subtreesize = len r - cs1 + length_n\<rparr>),
                         height := Suc (height r)\<rparr>)
                      seek newNode h length_n cn1 cs1 (Suc i)))
      else Some (r, i))"
  by pat_completeness auto
termination
  by (relation "measure (\<lambda>(r, seek, newNode, h, length_n, cn, cs, i). h - i)") auto

declare ins_levels.simps [simp del]

text \<open>\<^verbatim>\<open>for ; i < len(seek); i++ { seek[i].node.levels[i].subtreesize += length }\<close>\<close>

function bump_levels ::
  "(addr \<Rightarrow> ('id, 't) ropeNode) \<Rightarrow> ropeSeek list \<Rightarrow> gint \<Rightarrow> nat
     \<Rightarrow> (addr \<Rightarrow> ('id, 't) ropeNode) option" where
  "bump_levels ns seek length_n i =
     (if i < length seek then
        (case node_s (seek ! i) of
           None \<Rightarrow> None
         | Some n \<Rightarrow>
             if length (levels (ns n)) \<le> i then None
             else bump_levels
                    (upd_level ns n i (\<lambda>l. l\<lparr>subtreesize := subtreesize l + length_n\<rparr>))
                    seek length_n (Suc i))
      else Some ns)"
  by pat_completeness auto
termination
  by (relation "measure (\<lambda>(ns, seek, length_n, i). length seek - i)") auto

declare bump_levels.simps [simp del]

definition insert_phase ::
  "('id, 't) ropeImpl \<Rightarrow> ropeSeek list \<Rightarrow> addr \<Rightarrow> gint \<Rightarrow> addr \<Rightarrow> nat \<Rightarrow> 'id \<Rightarrow> gint \<Rightarrow> 't
     \<Rightarrow> ('id, 't) ropeImpl option" where
  "insert_phase r seek cn cs after h insertId length_n data =
     (let (newNode, r1) = new_node r h insertId length_n data;
          r2 = r1\<lparr>byId := (byId r1)(insertId \<mapsto> newNode)\<rparr>
      in
      case ins_levels r2 seek newNode h length_n cn cs 0 of
        None \<Rightarrow> None
      | Some (r3, i) \<Rightarrow>
          (case bump_levels (nodes r3) seek length_n i of
             None \<Rightarrow> None
           | Some ns4 \<Rightarrow>
               let r5 = r3\<lparr>nodes := ns4, len := len r3 + length_n\<rparr> in
               Some (if after = head
                     then (if len r5 = length_n then r5\<lparr>lastId := insertId\<rparr> else r5)
                     else if lastId r5 = id_n (nodes r5 after) then r5\<lparr>lastId := insertId\<rparr>
                     else r5)))"

text \<open>
  The internal \<^verbatim>\<open>splice\<close>. The error result of the source is always \<^verbatim>\<open>nil\<close>
  here, so the function returns the removed records and the new state.
\<close>

definition splice ::
  "('id::zero, 't::zero) ropeImpl \<Rightarrow> nat \<Rightarrow> addr \<Rightarrow> bool \<Rightarrow> 'id \<Rightarrow> bool \<Rightarrow> 'id \<Rightarrow> gint \<Rightarrow> 't
     \<Rightarrow> (('id, 't) Removed list \<times> ('id, 't) ropeImpl) option" where
  "splice r h after doDelete deleteUntil doInsert insertId length_n data =
     (if maxHeight < height r then None
      else
        case seek_loop (nodes r) (height r) (replicate (height r) zeroSeek)
               after (Len (dl (nodes r after))) 0 of
          None \<Rightarrow> None
        | Some (seek, cn, cs) \<Rightarrow>
            (case (if doDelete then delete_phase r seek after deleteUntil else Some ([], r)) of
               None \<Rightarrow> None
             | Some (removed, r1) \<Rightarrow>
                 if doInsert then
                   (case insert_phase r1 seek cn cs after h insertId length_n data of
                      None \<Rightarrow> None
                    | Some r2 \<Rightarrow> Some (removed, r2))
                 else Some (removed, r1)))"

text \<open>
  The exported \<^verbatim>\<open>Splice\<close>. \<open>sizer\<close> is the length capability of the payload
  type (\<open>None\<close> when the type is no \<^verbatim>\<open>Sizer\<close>), \<open>rnd\<close> the random word that
  \<^verbatim>\<open>randomHeight\<close> draws. \<open>deleteUntilId\<close> and \<open>insertId\<close> are the optional
  pointers of the source. The result pairs the returned values with the state
  after the call.
\<close>

definition Splice ::
  "('t \<Rightarrow> gint) option \<Rightarrow> 32 word \<Rightarrow> ('id::zero, 't::zero) ropeImpl
     \<Rightarrow> 'id \<Rightarrow> 'id option \<Rightarrow> 'id option \<Rightarrow> 't
     \<Rightarrow> ((('id, 't) Removed list \<times> error option) \<times> ('id, 't) ropeImpl) option" where
  "Splice sizer rnd r afterId deleteUntilId insertId data =
     (case (case byId r afterId of
              Some a \<Rightarrow> Some a
            | None \<Rightarrow> if afterId = 0 then Some head else None) of
        None \<Rightarrow> Some (([], Some ErrBadAnchor), r)
      | Some afterNode \<Rightarrow>
          let doDelete = (case deleteUntilId of None \<Rightarrow> False | Some d \<Rightarrow> d \<noteq> afterId);
              deleteUntil = (case deleteUntilId of None \<Rightarrow> 0
                             | Some d \<Rightarrow> if d \<noteq> afterId then d else 0)
          in
          (case insertId of
             None \<Rightarrow>
               (case splice r (randomHeight rnd) afterNode doDelete deleteUntil False 0 0 data of
                  None \<Rightarrow> None
                | Some (removed, r1) \<Rightarrow> Some ((removed, None), r1))
           | Some iid \<Rightarrow>
               if byId r iid \<noteq> None then Some (([], Some ErrIdExists), r)
               else
                 let length_n = (case sizer of None \<Rightarrow> 0 | Some f \<Rightarrow> f data) in
                 if word_sless length_n 0 then Some (([], Some ErrNegativeLength), r)
                 else
                   (case splice r (randomHeight rnd) afterNode doDelete deleteUntil
                           True iid length_n data of
                      None \<Rightarrow> None
                    | Some (removed, r1) \<Rightarrow> Some ((removed, None), r1))))"

definition Insert ::
  "('t \<Rightarrow> gint) option \<Rightarrow> 32 word \<Rightarrow> ('id::zero, 't::zero) ropeImpl \<Rightarrow> 'id \<Rightarrow> 'id \<Rightarrow> 't
     \<Rightarrow> (error option \<times> ('id, 't) ropeImpl) option" where
  "Insert sizer rnd r afterId newId data =
     (case Splice sizer rnd r afterId None (Some newId) data of
        None \<Rightarrow> None
      | Some ((removed, err), r1) \<Rightarrow> Some (err, r1))"

definition Delete ::
  "('t \<Rightarrow> gint) option \<Rightarrow> 32 word \<Rightarrow> ('id::zero, 't::zero) ropeImpl \<Rightarrow> 'id \<Rightarrow> 'id
     \<Rightarrow> ((('id, 't) Removed list \<times> error option) \<times> ('id, 't) ropeImpl) option" where
  "Delete sizer rnd r afterId untilId = Splice sizer rnd r afterId (Some untilId) None 0"

subsection \<open>Between, Compare, Less\<close>

definition Between :: "('id, 't) ropeImpl \<Rightarrow> 'id \<Rightarrow> 'id \<Rightarrow> (gint \<times> bool) option" where
  "Between r afterA afterB =
     (case Find r afterA of
        None \<Rightarrow> None
      | Some posA \<Rightarrow>
          if word_sless posA 0 then Some (0, False)
          else
            (case Find r afterB of
               None \<Rightarrow> None
             | Some posB \<Rightarrow>
                 if word_sless posB 0 then Some (0, False)
                 else Some (posB - posA, True)))"

text \<open>
  \<^verbatim>\<open>rseekNodes\<close>, inner loop: the flag of the result says whether the function
  returned from inside (\<^verbatim>\<open>i == r.height\<close>).
\<close>

function rseek_fill ::
  "addr option list \<Rightarrow> addr \<Rightarrow> nat \<Rightarrow> nat \<Rightarrow> nat \<Rightarrow> (addr option list \<times> nat \<times> bool) option" where
  "rseek_fill target cur hgt i ll =
     (if i < ll then
        (if length target \<le> i then None
         else if Suc i = hgt then Some (target[i := Some cur], Suc i, True)
         else rseek_fill (target[i := Some cur]) cur hgt (Suc i) ll)
      else Some (target, i, False))"
  by pat_completeness auto
termination
  by (relation "measure (\<lambda>(target, cur, hgt, i, ll). ll - i)") auto

declare rseek_fill.simps [simp del]

partial_function (option) rseek_loop ::
  "(addr \<Rightarrow> ('id, 't) ropeNode) \<Rightarrow> nat \<Rightarrow> addr \<Rightarrow> addr option list \<Rightarrow> nat
     \<Rightarrow> addr option list option" where
  "rseek_loop ns hgt cur target i =
     (case rseek_fill target cur hgt i (length (levels (ns cur))) of
        None \<Rightarrow> None
      | Some (target1, i1, returned) \<Rightarrow>
          if returned then Some target1
          else if levels (ns cur) = [] then None
          else
            (case prev_n (levels (ns cur) ! (length (levels (ns cur)) - 1)) of
               None \<Rightarrow> None
             | Some p \<Rightarrow> rseek_loop ns hgt p target1 i1))"

declare rseek_loop.simps [code]

definition rseekNodes :: "('id, 't) ropeImpl \<Rightarrow> addr \<Rightarrow> addr option list option" where
  "rseekNodes r cur = rseek_loop (nodes r) (height r) cur (replicate maxHeight None) 0"

text \<open>\<^verbatim>\<open>Compare\<close>, inner loop: the flag says whether \<^verbatim>\<open>curr == anodes[i]\<close> was met.\<close>

function cmp_scan ::
  "addr option list \<Rightarrow> addr \<Rightarrow> nat \<Rightarrow> nat \<Rightarrow> (bool \<times> nat) option" where
  "cmp_scan anodes cur i ll =
     (if i < ll then
        (if length anodes \<le> i then None
         else if anodes ! i = Some cur then Some (True, i)
         else cmp_scan anodes cur (Suc i) ll)
      else Some (False, i))"
  by pat_completeness auto
termination
  by (relation "measure (\<lambda>(anodes, cur, i, ll). ll - i)") auto

declare cmp_scan.simps [simp del]

partial_function (option) cmp_loop ::
  "(addr \<Rightarrow> ('id, 't) ropeNode) \<Rightarrow> addr option list \<Rightarrow> gint \<Rightarrow> addr \<Rightarrow> nat
     \<Rightarrow> (gint \<times> bool) option" where
  "cmp_loop ns anodes cmp cur i =
     (case cmp_scan anodes cur i (length (levels (ns cur))) of
        None \<Rightarrow> None
      | Some (found, i1) \<Rightarrow>
          if found then Some (cmp, True)
          else if levels (ns cur) = [] then None
          else
            let ll = length (levels (ns cur)) - 1;
                c = prev_n (levels (ns cur) ! ll)
            in
            if length anodes \<le> ll then None
            else if c = anodes ! ll then Some (- cmp, True)
            else if c = Some head then Some (cmp, True)
            else (case c of None \<Rightarrow> None | Some p \<Rightarrow> cmp_loop ns anodes cmp p i1))"

declare cmp_loop.simps [code]

definition Compare :: "('id, 't) ropeImpl \<Rightarrow> 'id \<Rightarrow> 'id \<Rightarrow> (gint \<times> bool) option" where
  "Compare r a b =
     (if a = b then Some (0, byId r a \<noteq> None)
      else
        case byId r a of
          None \<Rightarrow> Some (0, False)
        | Some anode \<Rightarrow>
            (case byId r b of
               None \<Rightarrow> Some (0, False)
             | Some bnode \<Rightarrow>
                 if length (levels (nodes r anode)) < length (levels (nodes r bnode)) then
                   (case rseekNodes r bnode of
                      None \<Rightarrow> None
                    | Some anodes \<Rightarrow> cmp_loop (nodes r) anodes (- 1) anode 1)
                 else
                   (case rseekNodes r anode of
                      None \<Rightarrow> None
                    | Some anodes \<Rightarrow> cmp_loop (nodes r) anodes 1 bnode 1)))"

definition Less :: "('id, 't) ropeImpl \<Rightarrow> 'id \<Rightarrow> 'id \<Rightarrow> bool option" where
  "Less r a b =
     (case Compare r a b of None \<Rightarrow> None | Some (c, ok) \<Rightarrow> Some (word_sless c 0))"

subsection \<open>Iteration\<close>

text \<open>
  The iterator attaches a counted cursor to the node it is about to yield, and
  takes it off again when the consumer comes back.
\<close>

definition iter_attach :: "addr \<Rightarrow> ('id, 't) ropeImpl \<Rightarrow> ('id, 't) ropeImpl" where
  "iter_attach e r =
     r\<lparr>nodes := (nodes r)
        (e := (nodes r e)
           \<lparr>iterRef :=
              (case iterRef (nodes r e) of
                 None \<Rightarrow> Some \<lparr>count_i = 1, node_i = Some e\<rparr>
               | Some ir \<Rightarrow> Some (ir\<lparr>count_i := count_i ir + 1\<rparr>))\<rparr>)\<rparr>"

definition iter_detach ::
  "addr \<Rightarrow> ('id, 't) ropeImpl \<Rightarrow> (addr option \<times> ('id, 't) ropeImpl) option" where
  "iter_detach e r =
     (case iterRef (nodes r e) of
        None \<Rightarrow> None
      | Some ir \<Rightarrow>
          Some (node_i ir,
                r\<lparr>nodes := (nodes r)
                   (e := (nodes r e)
                      \<lparr>iterRef := (if count_i ir - 1 = 0 then None
                                   else Some (ir\<lparr>count_i := count_i ir - 1\<rparr>))\<rparr>)\<rparr>))"

text \<open>
  The consumer \<open>yield\<close> receives the identifier and the \<^verbatim>\<open>DataLen\<close> of the entry;
  it may call the rope in between, so it takes the state and returns the new
  one with its answer (continue or stop). The loop collects what it yielded.
\<close>

partial_function (option) Iter_loop ::
  "('id \<Rightarrow> 't DataLen \<Rightarrow> ('id, 't) ropeImpl \<Rightarrow> (bool \<times> ('id, 't) ropeImpl) option)
     \<Rightarrow> addr \<Rightarrow> ('id, 't) ropeImpl \<Rightarrow> ('id \<times> 't DataLen) list
     \<Rightarrow> (('id \<times> 't DataLen) list \<times> ('id, 't) ropeImpl) option" where
  "Iter_loop yield e r acc =
     (case levels (nodes r e) of
        [] \<Rightarrow> None
      | l0 # _ \<Rightarrow>
          (case next_n l0 of
             None \<Rightarrow> Some (acc, r)
           | Some nx \<Rightarrow>
               (case yield (id_n (nodes r nx)) (dl (nodes r nx)) (iter_attach nx r) of
                  None \<Rightarrow> None
                | Some (shouldContinue, r1) \<Rightarrow>
                    (case iter_detach nx r1 of
                       None \<Rightarrow> None
                     | Some (update, r2) \<Rightarrow>
                         if \<not> shouldContinue
                         then Some (acc @ [(id_n (nodes r nx), dl (nodes r nx))], r2)
                         else
                           (case update of
                              None \<Rightarrow> None
                            | Some e1 \<Rightarrow>
                                Iter_loop yield e1 r2
                                  (acc @ [(id_n (nodes r nx), dl (nodes r nx))]))))))"

declare Iter_loop.simps [code]

definition Iter ::
  "('id, 't) ropeImpl \<Rightarrow> 'id
     \<Rightarrow> ('id \<Rightarrow> 't DataLen \<Rightarrow> ('id, 't) ropeImpl \<Rightarrow> (bool \<times> ('id, 't) ropeImpl) option)
     \<Rightarrow> (('id \<times> 't DataLen) list \<times> ('id, 't) ropeImpl) option" where
  "Iter r afterId yield =
     (case byId r afterId of
        None \<Rightarrow> Some ([], r)
      | Some e \<Rightarrow> Iter_loop yield e r [])"

subsection \<open>Reachable states\<close>

text \<open>
  The states a caller can bring a rope into: a new rope, then successful calls
  of \<open>Splice\<close> (\<open>Insert\<close> and \<open>Delete\<close> are calls of \<open>Splice\<close>), and the two
  writes of an iterator, which may happen between any two of them.
\<close>

inductive reach :: "('id::zero, 't::zero) ropeImpl \<Rightarrow> bool" where
  reach_NewRoot: "reach (NewRoot root)"
| reach_Splice:
    "reach r \<Longrightarrow> Splice sizer rnd r afterId deleteUntilId insertId data = Some (res, r1)
       \<Longrightarrow> reach r1"
| reach_attach: "reach r \<Longrightarrow> reach (iter_attach e r)"
| reach_detach: "reach r \<Longrightarrow> iter_detach e r = Some (update, r1) \<Longrightarrow> reach r1"

section \<open>The shape of a well-formed rope\<close>

text \<open>
  The entries of a rope, in sequence order, are the head followed by a list
  \<open>xs\<close> of addresses. The height of a node is the number of its levels; a
  node is tall at level \<open>j\<close> when it has a level \<open>j\<close>.
\<close>

definition hg :: "(addr \<Rightarrow> ('id, 't) ropeNode) \<Rightarrow> addr \<Rightarrow> nat" where
  "hg ns a = length (levels (ns a))"

definition ln :: "(addr \<Rightarrow> ('id, 't) ropeNode) \<Rightarrow> addr \<Rightarrow> gint" where
  "ln ns a = Len (dl (ns a))"

definition lv :: "(addr \<Rightarrow> ('id, 't) ropeNode) \<Rightarrow> addr \<Rightarrow> nat \<Rightarrow> ropeLevel" where
  "lv ns a j = levels (ns a) ! j"

definition tall :: "(addr \<Rightarrow> nat) \<Rightarrow> nat \<Rightarrow> addr \<Rightarrow> bool" where
  "tall H j a \<longleftrightarrow> j < H a"

text \<open>The first tall node of a list, if any.\<close>

definition nextAt :: "(addr \<Rightarrow> nat) \<Rightarrow> nat \<Rightarrow> addr list \<Rightarrow> addr option" where
  "nextAt H j ys = find (tall H j) ys"

text \<open>The total length of the nodes of a list before its first tall node.\<close>

definition seg :: "(addr \<Rightarrow> nat) \<Rightarrow> (addr \<Rightarrow> gint) \<Rightarrow> nat \<Rightarrow> addr list \<Rightarrow> gint" where
  "seg H L j ys = sum_list (map L (takeWhile (\<lambda>b. \<not> tall H j b) ys))"

text \<open>The last tall node of a list; the head when there is none.\<close>

definition prevAt :: "(addr \<Rightarrow> nat) \<Rightarrow> nat \<Rightarrow> addr list \<Rightarrow> addr" where
  "prevAt H j pre = (case find (tall H j) (rev pre) of None \<Rightarrow> head | Some p \<Rightarrow> p)"

text \<open>
  What level \<open>j\<close> of a node \<open>a\<close> holds when the nodes \<open>pre\<close> come before it and
  the nodes \<open>post\<close> after it: the next tall node, the previous tall node, and
  the length of \<open>a\<close> and of the nodes up to the next tall node.
\<close>

definition canon ::
  "(addr \<Rightarrow> nat) \<Rightarrow> (addr \<Rightarrow> gint) \<Rightarrow> nat \<Rightarrow> addr list \<Rightarrow> addr \<Rightarrow> addr list \<Rightarrow> ropeLevel" where
  "canon H L j pre a post =
     \<lparr>next_n = nextAt H j post, prev_n = Some (prevAt H j pre),
      subtreesize = L a + seg H L j post\<rparr>"

definition lvl_ok :: "(addr \<Rightarrow> ('id, 't) ropeNode) \<Rightarrow> nat \<Rightarrow> addr list \<Rightarrow> bool" where
  "lvl_ok ns j full \<longleftrightarrow>
     (\<forall>pre a post. full = pre @ a # post \<longrightarrow> j < hg ns a \<longrightarrow>
        lv ns a j = canon (hg ns) (ln ns) j pre a post)"

text \<open>
  The skeleton of a list of height \<open>hgt\<close> over the entries \<open>full\<close>, head first.
\<close>

definition skel :: "(addr \<Rightarrow> ('id, 't) ropeNode) \<Rightarrow> nat \<Rightarrow> addr list \<Rightarrow> bool" where
  "skel ns hgt full \<longleftrightarrow>
     (\<exists>xs. full = head # xs) \<and> distinct full \<and>
     (\<forall>j. lvl_ok ns j full) \<and>
     hg ns head = hgt \<and> 1 \<le> hgt \<and>
     (\<forall>a\<in>set full. 1 \<le> hg ns a \<and> hg ns a \<le> hgt)"

text \<open>
  The invariant of the rope \<open>r\<close> whose entries after the head are \<open>xs\<close>: every
  level of every entry is as \<open>canon\<close> says, the head has all the levels of the
  list, the identifier index names exactly the entries, the total length is
  the sum of their lengths, and the pool holds other nodes.
\<close>

definition rope_inv :: "('id::zero, 't) ropeImpl \<Rightarrow> addr list \<Rightarrow> bool" where
  "rope_inv r xs \<longleftrightarrow>
     skel (nodes r) (height r) (head # xs) \<and> height r \<le> maxHeight \<and>
     id_n (nodes r head) = 0 \<and> ln (nodes r) head = 0 \<and>
     (\<forall>i a. byId r i = Some a \<longleftrightarrow> a \<in> set (head # xs) \<and> id_n (nodes r a) = i) \<and>
     len r = sum_list (map (ln (nodes r)) (head # xs)) \<and>
     distinct (nodePool r) \<and> set (nodePool r) \<inter> set (head # xs) = {} \<and>
     (\<forall>a\<in>set (head # xs) \<union> set (nodePool r). a < nalloc r)"

text \<open>
  What the seek phase leaves for the anchor, \<open>rp\<close> being the entries from the
  anchor back to the head: at each level the last tall node up to the anchor and
  the length from that node through the anchor.
\<close>

definition seek_entry ::
  "(addr \<Rightarrow> nat) \<Rightarrow> (addr \<Rightarrow> gint) \<Rightarrow> addr list \<Rightarrow> nat \<Rightarrow> ropeSeek \<Rightarrow> bool" where
  "seek_entry H L rp j e \<longleftrightarrow>
     (\<exists>n. find (tall H j) rp = Some n \<and>
        e = \<lparr>node_s = Some n,
             sub = L n + sum_list (map L (takeWhile (\<lambda>b. \<not> tall H j b) rp))\<rparr>)"

definition seek_ok ::
  "(addr \<Rightarrow> nat) \<Rightarrow> (addr \<Rightarrow> gint) \<Rightarrow> nat \<Rightarrow> addr list \<Rightarrow> ropeSeek list \<Rightarrow> bool" where
  "seek_ok H L hgt rp seek \<longleftrightarrow>
     length seek = hgt \<and> (\<forall>j<hgt. seek_entry H L rp j (seek ! j))"

text \<open>
  The same shape, read along the list. \<open>T\<close> says which nodes are tall at the
  level. \<open>nextK\<close>, \<open>segK\<close> and \<open>prevK\<close> are \<open>nextAt\<close>, \<open>seg\<close> and \<open>prevAt\<close> for a
  piece of the list, given what the rest of the list contributes: the next tall
  node \<open>N\<close> and the length \<open>S\<close> before it, the previous tall node \<open>P\<close>.
\<close>

primrec nextK :: "(addr \<Rightarrow> bool) \<Rightarrow> addr option \<Rightarrow> addr list \<Rightarrow> addr option" where
  "nextK T N [] = N"
| "nextK T N (x # q) = (if T x then Some x else nextK T N q)"

primrec segK :: "(addr \<Rightarrow> bool) \<Rightarrow> (addr \<Rightarrow> gint) \<Rightarrow> gint \<Rightarrow> addr list \<Rightarrow> gint" where
  "segK T L S [] = S"
| "segK T L S (x # q) = (if T x then 0 else L x + segK T L S q)"

definition prevK :: "(addr \<Rightarrow> bool) \<Rightarrow> addr \<Rightarrow> addr list \<Rightarrow> addr" where
  "prevK T P pre = foldl (\<lambda>p x. if T x then x else p) P pre"

primrec fwdc ::
  "(addr \<Rightarrow> bool) \<Rightarrow> (addr \<Rightarrow> gint) \<Rightarrow> (addr \<Rightarrow> ('id, 't) ropeNode) \<Rightarrow> nat
     \<Rightarrow> addr option \<Rightarrow> gint \<Rightarrow> addr list \<Rightarrow> bool" where
  "fwdc T L ns j N S [] = True"
| "fwdc T L ns j N S (a # X) =
     ((T a \<longrightarrow> next_n (lv ns a j) = nextK T N X
          \<and> subtreesize (lv ns a j) = L a + segK T L S X)
      \<and> fwdc T L ns j N S X)"

primrec bwdc ::
  "(addr \<Rightarrow> bool) \<Rightarrow> (addr \<Rightarrow> ('id, 't) ropeNode) \<Rightarrow> nat \<Rightarrow> addr \<Rightarrow> addr list \<Rightarrow> bool" where
  "bwdc T ns j P [] = True"
| "bwdc T ns j P (a # X) =
     ((T a \<longrightarrow> prev_n (lv ns a j) = Some P) \<and> bwdc T ns j (if T a then a else P) X)"

text \<open>Two stores that differ in the contents of the levels only.\<close>

definition same_meta ::
  "(addr \<Rightarrow> ('id, 't) ropeNode) \<Rightarrow> (addr \<Rightarrow> ('id, 't) ropeNode) \<Rightarrow> bool" where
  "same_meta ns ns' \<longleftrightarrow>
     (\<forall>a. id_n (ns' a) = id_n (ns a) \<and> dl (ns' a) = dl (ns a)
          \<and> iterRef (ns' a) = iterRef (ns a) \<and> spare (ns' a) = spare (ns a)
          \<and> length (levels (ns' a)) = length (levels (ns a)))"

text \<open>The successors of a node along level 0.\<close>

definition next0 :: "(addr \<Rightarrow> ('id, 't) ropeNode) \<Rightarrow> addr \<Rightarrow> addr option" where
  "next0 ns a = (case levels (ns a) of [] \<Rightarrow> None | l # _ \<Rightarrow> next_n l)"

primrec path0 :: "(addr \<Rightarrow> ('id, 't) ropeNode) \<Rightarrow> addr \<Rightarrow> addr list \<Rightarrow> bool" where
  "path0 ns a [] = True"
| "path0 ns a (b # bs) = (next0 ns a = Some b \<and> path0 ns b bs)"

text \<open>The record that \<open>splice\<close> returns for a removed node.\<close>

definition rec_of :: "(addr \<Rightarrow> ('id, 't) ropeNode) \<Rightarrow> addr \<Rightarrow> ('id, 't) Removed" where
  "rec_of ns e = \<lparr>Id_r = id_n (ns e), Len_r = Len (dl (ns e)), Data_r = Data (dl (ns e))\<rparr>"

text \<open>
  The nodes a delete until \<open>X\<close> removes from the nodes \<open>rest\<close> after the anchor:
  those up to and including the first one with identifier \<open>X\<close>, all of them
  when there is none.
\<close>

primrec cut :: "(addr \<Rightarrow> ('id, 't) ropeNode) \<Rightarrow> 'id \<Rightarrow> addr list \<Rightarrow> addr list" where
  "cut ns X [] = []"
| "cut ns X (e # rest) = e # (if id_n (ns e) = X then [] else cut ns X rest)"

text \<open>
  The state of the insert loop before level \<open>i\<close>, \<open>r0\<close> being the state the loop
  started in, \<open>A\<close> the entries up to the anchor, \<open>post\<close> those after it and
  \<open>nn\<close> the new node: the levels below \<open>i\<close> hold the new node, the levels from
  \<open>i\<close> on are those of the old list.
\<close>

definition ins_inv ::
  "('id, 't) ropeImpl \<Rightarrow> addr list \<Rightarrow> addr list \<Rightarrow> addr \<Rightarrow> nat \<Rightarrow> ('id, 't) ropeImpl \<Rightarrow> bool" where
  "ins_inv r0 A post nn i r \<longleftrightarrow>
     (\<forall>a. id_n (nodes r a) = id_n (nodes r0 a) \<and> dl (nodes r a) = dl (nodes r0 a)) \<and>
     (\<forall>a. a \<noteq> head \<longrightarrow> hg (nodes r) a = hg (nodes r0) a) \<and>
     hg (nodes r) head = height r \<and> height r = max (height r0) i \<and>
     len r = len r0 \<and> byId r = byId r0 \<and> nodePool r = nodePool r0 \<and>
     nalloc r = nalloc r0 \<and> lastId r = lastId r0 \<and>
     (\<forall>k<i. lvl_ok (nodes r) k (A @ nn # post)) \<and>
     (\<forall>k. i \<le> k \<longrightarrow> k < height r0 \<longrightarrow> lvl_ok (nodes r) k (A @ post))"

text \<open>
  The lengths of a list of nodes added up as integers, and the lists whose
  lengths are not negative and add up to a Go \<^verbatim>\<open>int\<close>.
\<close>

definition isum :: "(addr \<Rightarrow> ('id, 't) ropeNode) \<Rightarrow> addr list \<Rightarrow> int" where
  "isum ns ys = sum_list (map (\<lambda>a. sint (ln ns a)) ys)"

definition fits :: "(addr \<Rightarrow> ('id, 't) ropeNode) \<Rightarrow> addr list \<Rightarrow> bool" where
  "fits ns ys \<longleftrightarrow> (\<forall>a\<in>set ys. 0 \<le> sint (ln ns a)) \<and> isum ns ys < 2 ^ 63"

section \<open>Example ropes\<close>

text \<open>
  Ropes with natural numbers as identifiers and as payloads, the payload \<open>n\<close>
  having length \<open>n\<close>. \<open>ex1\<close> holds entry 1 of length 5; \<open>ex2\<close> holds entry 1
  and, after it, entry 2 of length 6 and height 2; \<open>ex3\<close> also holds entry 3 of
  length 4 after entry 2.
\<close>

definition sizer_nat :: "(nat \<Rightarrow> gint) option" where
  "sizer_nat = Some word_of_nat"

definition ex1 :: "(nat, nat) ropeImpl" where
  "ex1 = snd (the (Splice sizer_nat 1 New 0 None (Some 1) 5))"

definition ex2 :: "(nat, nat) ropeImpl" where
  "ex2 = snd (the (Splice sizer_nat 2 ex1 1 None (Some 2) 6))"

definition ex3 :: "(nat, nat) ropeImpl" where
  "ex3 = snd (the (Splice sizer_nat 1 ex2 2 None (Some 3) 4))"

text \<open>
  \<open>exz1\<close> holds entry 1 of length 0; \<open>exz2\<close> holds, after the head, entry 2 of
  length 1 and then entry 1. \<open>exq\<close> holds entry 1 of length 5 and then entry 2
  of length 0.
\<close>

definition exz1 :: "(nat, nat) ropeImpl" where
  "exz1 = snd (the (Splice sizer_nat 1 New 0 None (Some 1) 0))"

definition exz2 :: "(nat, nat) ropeImpl" where
  "exz2 = snd (the (Splice sizer_nat 1 exz1 0 None (Some 2) 1))"

definition exq :: "(nat, nat) ropeImpl" where
  "exq = snd (the (Splice sizer_nat 1 ex1 1 None (Some 2) 0))"

text \<open>
  Ropes with integers as payloads, the payload \<open>n\<close> having length \<open>n\<close>.
  \<open>exbig1\<close> holds entry 1 of length \<open>2^63 - 1\<close>, the largest Go \<^verbatim>\<open>int\<close>;
  \<open>exbig2\<close> holds entry 2 of length 1 after it, so that the total length
  wraps around to \<open>- 2^63\<close>.
\<close>

definition sizer_int :: "(int \<Rightarrow> gint) option" where
  "sizer_int = Some word_of_int"

definition exbig1 :: "(nat, int) ropeImpl" where
  "exbig1 = snd (the (Splice sizer_int 1 New 0 None (Some 1) 9223372036854775807))"

definition exbig2 :: "(nat, int) ropeImpl" where
  "exbig2 = snd (the (Splice sizer_int 1 exbig1 1 None (Some 2) 1))"

section \<open>The invariant is kept\<close>

subsection \<open>Lists\<close>

lemma find_append_: "find P (xs @ ys) = (case find P xs of None \<Rightarrow> find P ys | Some x \<Rightarrow> Some x)"
  by (induction xs) auto

lemma find_split:
  "find P xs = Some x \<longleftrightarrow> (\<exists>u v. xs = u @ x # v \<and> P x \<and> (\<forall>y\<in>set u. \<not> P y))"
proof (induction xs)
  case Nil then show ?case by simp
next
  case (Cons a xs)
  show ?case
  proof (cases "P a")
    case True
    have "(\<exists>u v. a # xs = u @ x # v \<and> P x \<and> (\<forall>y\<in>set u. \<not> P y)) \<longleftrightarrow> a = x"
    proof
      assume "\<exists>u v. a # xs = u @ x # v \<and> P x \<and> (\<forall>y\<in>set u. \<not> P y)"
      then obtain u v where uv: "a # xs = u @ x # v" "\<forall>y\<in>set u. \<not> P y" by blast
      show "a = x"
      proof (cases u)
        case Nil with uv show ?thesis by simp
      next
        case (Cons b u') with uv True show ?thesis by auto
      qed
    next
      assume "a = x"
      then have "a # xs = [] @ x # xs \<and> P x \<and> (\<forall>y\<in>set []. \<not> P y)" using True by simp
      then show "\<exists>u v. a # xs = u @ x # v \<and> P x \<and> (\<forall>y\<in>set u. \<not> P y)" by blast
    qed
    then show ?thesis using True by simp
  next
    case False
    have "(\<exists>u v. a # xs = u @ x # v \<and> P x \<and> (\<forall>y\<in>set u. \<not> P y))
        \<longleftrightarrow> (\<exists>u v. xs = u @ x # v \<and> P x \<and> (\<forall>y\<in>set u. \<not> P y))"
    proof
      assume "\<exists>u v. a # xs = u @ x # v \<and> P x \<and> (\<forall>y\<in>set u. \<not> P y)"
      then obtain u v where uv: "a # xs = u @ x # v" "P x" "\<forall>y\<in>set u. \<not> P y" by blast
      show "\<exists>u v. xs = u @ x # v \<and> P x \<and> (\<forall>y\<in>set u. \<not> P y)"
      proof (cases u)
        case Nil with uv False show ?thesis by simp
      next
        case (Cons b u')
        with uv have "xs = u' @ x # v \<and> P x \<and> (\<forall>y\<in>set u'. \<not> P y)" by simp
        then show ?thesis by blast
      qed
    next
      assume "\<exists>u v. xs = u @ x # v \<and> P x \<and> (\<forall>y\<in>set u. \<not> P y)"
      then obtain u v where uv: "xs = u @ x # v" "P x" "\<forall>y\<in>set u. \<not> P y" by blast
      then have "a # xs = (a # u) @ x # v \<and> P x \<and> (\<forall>y\<in>set (a # u). \<not> P y)"
        using False by simp
      then show "\<exists>u v. a # xs = u @ x # v \<and> P x \<and> (\<forall>y\<in>set u. \<not> P y)" by blast
    qed
    then show ?thesis using False Cons by simp
  qed
qed

lemma find_rev_split:
  "find P (rev xs) = Some x \<longleftrightarrow> (\<exists>u v. xs = u @ x # v \<and> P x \<and> (\<forall>y\<in>set v. \<not> P y))"
proof -
  have "find P (rev xs) = Some x \<longleftrightarrow> (\<exists>u v. rev xs = u @ x # v \<and> P x \<and> (\<forall>y\<in>set u. \<not> P y))"
    by (rule find_split)
  also have "\<dots> \<longleftrightarrow> (\<exists>u v. xs = u @ x # v \<and> P x \<and> (\<forall>y\<in>set v. \<not> P y))"
  proof
    assume "\<exists>u v. rev xs = u @ x # v \<and> P x \<and> (\<forall>y\<in>set u. \<not> P y)"
    then obtain u v where "rev xs = u @ x # v" "P x" "\<forall>y\<in>set u. \<not> P y" by blast
    then have "xs = rev v @ x # rev u" by (metis rev_append rev.simps(2) rev_rev_ident append_assoc append_Cons append_Nil)
    then show "\<exists>u v. xs = u @ x # v \<and> P x \<and> (\<forall>y\<in>set v. \<not> P y)"
      using \<open>P x\<close> \<open>\<forall>y\<in>set u. \<not> P y\<close> by (metis set_rev)
  next
    assume "\<exists>u v. xs = u @ x # v \<and> P x \<and> (\<forall>y\<in>set v. \<not> P y)"
    then obtain u v where "xs = u @ x # v" "P x" "\<forall>y\<in>set v. \<not> P y" by blast
    then have "rev xs = rev v @ x # rev u" by simp
    then show "\<exists>u v. rev xs = u @ x # v \<and> P x \<and> (\<forall>y\<in>set u. \<not> P y)"
      using \<open>P x\<close> \<open>\<forall>y\<in>set v. \<not> P y\<close> by (metis set_rev)
  qed
  finally show ?thesis .
qed

lemma split_unique:
  "distinct (p @ a # q) \<Longrightarrow> p @ a # q = p' @ a # q' \<Longrightarrow> p = p' \<and> q = q'"
  by (metis append_Cons_eq_iff distinct.simps(2) distinct_append Un_iff set_append list.set_intros(1) disjoint_iff)


lemma takeWhile_rev_split:
  "P c \<Longrightarrow> \<forall>y\<in>set v. \<not> P y \<Longrightarrow> takeWhile (\<lambda>b. \<not> P b) (rev (u @ c # v)) = rev v"
  using takeWhile_append2 [of "rev v" "\<lambda>b. \<not> P b" "c # rev u"] by simp

lemma takeWhile_split:
  "P c \<Longrightarrow> \<forall>y\<in>set u. \<not> P y \<Longrightarrow> takeWhile (\<lambda>b. \<not> P b) (u @ c # v) = u"
  using takeWhile_append2 [of u "\<lambda>b. \<not> P b" "c # v"] by simp

lemma takeWhile_all: "\<forall>y\<in>set u. \<not> P y \<Longrightarrow> takeWhile (\<lambda>b. \<not> P b) u = u"
  by simp

subsection \<open>Store updates\<close>

lemma hg_upd_level [simp]: "hg (upd_level ns a j f) = hg ns"
  by (rule ext) (simp add: hg_def upd_level_def)

lemma ln_upd_level [simp]: "ln (upd_level ns a j f) = ln ns"
  by (rule ext) (simp add: ln_def upd_level_def)

lemma lv_upd_level:
  "lv (upd_level ns a j f) b k =
     (if b = a \<and> k = j \<and> j < hg ns a then f (lv ns a j) else lv ns b k)"
  by (auto simp: lv_def upd_level_def hg_def list_update_beyond)

lemma meta_upd_level [simp]:
  "id_n (upd_level ns a j f b) = id_n (ns b)"
  "dl (upd_level ns a j f b) = dl (ns b)"
  "iterRef (upd_level ns a j f b) = iterRef (ns b)"
  "spare (upd_level ns a j f b) = spare (ns b)"
  "length (levels (upd_level ns a j f b)) = length (levels (ns b))"
  by (simp_all add: upd_level_def)

subsection \<open>The seek phase\<close>

lemma seek_fill_Some:
  "nl \<le> length seek \<Longrightarrow>
     \<exists>seek'. seek_fill seek c i nl = Some (seek', max i nl) \<and> length seek' = length seek \<and>
       (\<forall>j<length seek. seek' ! j = (if i \<le> j \<and> j < nl then c else seek ! j))"
proof (induction seek c i nl rule: seek_fill.induct)
  case (1 seek cseek i nl)
  show ?case
  proof (cases "i < nl")
    case False
    then show ?thesis by (auto simp: seek_fill.simps max_def)
  next
    case True
    with "1.prems" have il: "i < length seek" by simp
    from "1.IH" [OF True il] "1.prems"
    obtain seek' where s: "seek_fill (seek[i := cseek]) cseek (Suc i) nl = Some (seek', max (Suc i) nl)"
      "length seek' = length seek"
      "\<forall>j<length seek. seek' ! j = (if Suc i \<le> j \<and> j < nl then cseek else seek[i := cseek] ! j)"
      by auto
    have "seek_fill seek cseek i nl = Some (seek', max i nl)"
      using True il s(1) by (subst seek_fill.simps) (simp add: max_def)
    moreover have "\<forall>j<length seek. seek' ! j = (if i \<le> j \<and> j < nl then cseek else seek ! j)"
      using s(3) True il by (auto simp: nth_list_update)
    ultimately show ?thesis using s(2) by blast
  qed
qed


lemma skel_lv:
  "skel ns hgt (pre @ a # post) \<Longrightarrow> j < hg ns a \<Longrightarrow>
     lv ns a j = canon (hg ns) (ln ns) j pre a post"
  unfolding skel_def lvl_ok_def by blast

lemma skel_hg:
  "skel ns hgt full \<Longrightarrow> a \<in> set full \<Longrightarrow> 1 \<le> hg ns a \<and> hg ns a \<le> hgt"
  unfolding skel_def by blast

lemma skel_head_first:
  assumes "skel ns hgt (pre @ a # post)"
  shows "(a = head \<longleftrightarrow> pre = []) \<and> (pre \<noteq> [] \<longrightarrow> hd pre = head)"
proof -
  from assms obtain xs where xs: "pre @ a # post = head # xs" and d: "distinct (pre @ a # post)"
    unfolding skel_def by blast
  show ?thesis
  proof (cases pre)
    case Nil with xs show ?thesis by simp
  next
    case (Cons b pre')
    with xs have "b = head" by simp
    moreover from d Cons have "a \<noteq> b" by auto
    ultimately show ?thesis using Cons by simp
  qed
qed

lemma skel_prev:
  assumes sk: "skel ns hgt (pre @ a # post)" and nh: "a \<noteq> head" and j: "j < hg ns a"
  shows "\<exists>B1 p B2. pre = B1 @ p # B2 \<and> tall (hg ns) j p \<and> (\<forall>b\<in>set B2. \<not> tall (hg ns) j b)
           \<and> prev_n (lv ns a j) = Some p"
proof -
  from skel_head_first [OF sk] nh have pre: "pre \<noteq> []" "hd pre = head" by auto
  have "hg ns a \<le> hgt" using skel_hg [OF sk, of a] by simp
  moreover have "hg ns head = hgt" using sk unfolding skel_def by blast
  ultimately have th: "tall (hg ns) j head" using j by (simp add: tall_def)
  have "head \<in> set (rev pre)" using pre by (cases pre) auto
  then have "find (tall (hg ns) j) (rev pre) \<noteq> None" using th by (auto simp: find_None_iff)
  then obtain p where p: "find (tall (hg ns) j) (rev pre) = Some p" by auto
  then obtain B1 B2 where B: "pre = B1 @ p # B2" "tall (hg ns) j p" "\<forall>b\<in>set B2. \<not> tall (hg ns) j b"
    unfolding find_rev_split by blast
  have "prev_n (lv ns a j) = Some p"
    using skel_lv [OF sk j] p by (simp add: canon_def prevAt_def)
  with B show ?thesis by blast
qed

lemma seek_loop_stop:
  "seek_fill seek \<lparr>node_s = Some cn, sub = cs\<rparr> i (hg ns cn) = Some (seek1, i1) \<Longrightarrow>
   cn = head \<or> i1 = hgt \<Longrightarrow> seek_loop ns hgt seek cn cs i = Some (seek1, cn, cs)"
  by (subst seek_loop.simps) (simp add: hg_def)

lemma seek_loop_step:
  "seek_fill seek \<lparr>node_s = Some cn, sub = cs\<rparr> i (hg ns cn) = Some (seek1, i1) \<Longrightarrow>
   \<not> (cn = head \<or> i1 = hgt) \<Longrightarrow> 0 < i1 \<Longrightarrow> i1 - 1 < hg ns cn \<Longrightarrow>
   prev_n (lv ns cn (i1 - 1)) = Some p \<Longrightarrow> i1 - 1 < hg ns p \<Longrightarrow>
   seek_loop ns hgt seek cn cs i
     = seek_loop ns hgt seek1 p (cs + subtreesize (lv ns p (i1 - 1))) i1"
  by (subst seek_loop.simps) (auto simp: hg_def lv_def)

lemma seek_ok_entry:
  "seek_ok H L hgt rp seek \<longleftrightarrow> length seek = hgt \<and> (\<forall>j<hgt. seek_entry H L rp j (seek ! j))"
  by (simp add: seek_ok_def)

lemma seek_entry_here:
  assumes "tall H j c" "\<forall>b\<in>set A2. \<not> tall H j b"
  shows "seek_entry H L (rev (A1 @ c # A2)) j \<lparr>node_s = Some c, sub = L c + sum_list (map L A2)\<rparr>"
proof -
  have "find (tall H j) (rev (A1 @ c # A2)) = Some c"
    unfolding find_rev_split using assms by blast
  moreover have "takeWhile (\<lambda>b. \<not> tall H j b) (rev (A1 @ c # A2)) = rev A2"
    using assms by (rule takeWhile_rev_split)
  moreover have "sum_list (map L (rev A2)) = sum_list (map L A2)"
    by (simp add: rev_map [symmetric])
  ultimately show ?thesis by (simp add: seek_entry_def)
qed

lemma seek_loop_correct:
  assumes "skel ns hgt (A1 @ c # A2 @ post)"
    and "\<forall>b\<in>set A2. hg ns b \<le> i" and "i \<le> hg ns c"
    and "cs = ln ns c + sum_list (map (ln ns) A2)"
    and "length seek = hgt"
    and "\<forall>j<i. seek_entry (hg ns) (ln ns) (rev (A1 @ c # A2)) j (seek ! j)"
  shows "\<exists>seek' cf csf F1 F2.
           seek_loop ns hgt seek c cs i = Some (seek', cf, csf) \<and>
           seek_ok (hg ns) (ln ns) hgt (rev (A1 @ c # A2)) seek' \<and>
           A1 @ c # A2 = F1 @ cf # F2 \<and>
           csf = ln ns cf + sum_list (map (ln ns) F2) \<and>
           (cf \<noteq> head \<longrightarrow> hg ns cf = hgt)"
  using assms
proof (induction "length A1" arbitrary: A1 c A2 cs i seek rule: less_induct)
  case less
  let ?H = "hg ns" and ?L = "ln ns"
  note sk = less.prems(1)
  have hc: "1 \<le> ?H c" "?H c \<le> hgt" using skel_hg [OF sk, of c] by auto
  have hh: "?H head = hgt" using sk unfolding skel_def by blast
  from seek_fill_Some [of "?H c" seek "\<lparr>node_s = Some c, sub = cs\<rparr>" i] hc less.prems(5)
  obtain seek1 where f: "seek_fill seek \<lparr>node_s = Some c, sub = cs\<rparr> i (?H c) = Some (seek1, max i (?H c))"
    and l1: "length seek1 = hgt"
    and e1: "\<forall>j<hgt. seek1 ! j = (if i \<le> j \<and> j < ?H c then \<lparr>node_s = Some c, sub = cs\<rparr> else seek ! j)"
    by auto
  have mx: "max i (?H c) = ?H c" using less.prems(3) by simp
  have filled: "\<forall>j<?H c. seek_entry ?H ?L (rev (A1 @ c # A2)) j (seek1 ! j)"
  proof (intro allI impI)
    fix j assume j: "j < ?H c"
    show "seek_entry ?H ?L (rev (A1 @ c # A2)) j (seek1 ! j)"
    proof (cases "j < i")
      case True
      then show ?thesis using e1 j hc less.prems(6) by simp
    next
      case False
      then have s: "seek1 ! j = \<lparr>node_s = Some c, sub = cs\<rparr>" using e1 j hc by simp
      have "tall ?H j c" using j by (simp add: tall_def)
      moreover have "\<forall>b\<in>set A2. \<not> tall ?H j b" using less.prems(2) False by (auto simp: tall_def)
      ultimately show ?thesis unfolding s less.prems(4) by (rule seek_entry_here)
    qed
  qed
  show ?case
  proof (cases "c = head \<or> ?H c = hgt")
    case True
    then have top: "?H c = hgt" using hh by auto
    have "seek_loop ns hgt seek c cs i = Some (seek1, c, cs)"
      using seek_loop_stop [OF f] True mx by simp
    moreover have "seek_ok ?H ?L hgt (rev (A1 @ c # A2)) seek1"
      unfolding seek_ok_entry using l1 filled top by simp
    ultimately show ?thesis using less.prems(4) top by blast
  next
    case False
    then have nh: "c \<noteq> head" and lt: "?H c < hgt" using hc by auto
    let ?k = "?H c - 1"
    have k: "?k < ?H c" using hc by simp
    from skel_prev [OF sk nh k]
    obtain B1 p B2 where B: "A1 = B1 @ p # B2" "tall ?H ?k p" "\<forall>b\<in>set B2. \<not> tall ?H ?k b"
      and pv: "prev_n (lv ns c ?k) = Some p" by blast
    have kp: "?k < ?H p" using B(2) by (simp add: tall_def)
    have sk': "skel ns hgt (B1 @ p # (B2 @ c # A2) @ post)" using sk B(1) by simp
    have "lv ns p ?k = canon ?H ?L ?k B1 p ((B2 @ c # A2) @ post)"
      using skel_lv [OF sk' kp] .
    moreover have "takeWhile (\<lambda>b. \<not> tall ?H ?k b) ((B2 @ c # A2) @ post) = B2"
      using takeWhile_split [of "tall ?H ?k" c B2 "A2 @ post"] B(3) k by (simp add: tall_def)
    ultimately have st: "subtreesize (lv ns p ?k) = ?L p + sum_list (map ?L B2)"
      by (simp add: canon_def seg_def)
    have step: "seek_loop ns hgt seek c cs i
        = seek_loop ns hgt seek1 p (cs + subtreesize (lv ns p ?k)) (?H c)"
      using seek_loop_step [OF f _ _ _ _ _] False mx hc k pv kp by simp
    have len: "length B1 < length A1" using B(1) by simp
    have c2: "\<forall>b\<in>set (B2 @ c # A2). ?H b \<le> ?H c"
      using B(3) less.prems(2,3) by (auto simp: tall_def)
    have c3: "?H c \<le> ?H p" using kp by simp
    have c4: "cs + subtreesize (lv ns p ?k) = ?L p + sum_list (map ?L (B2 @ c # A2))"
      unfolding st less.prems(4) by simp
    have eqA: "B1 @ p # B2 @ c # A2 = A1 @ c # A2" using B(1) by simp
    have c6: "\<forall>j<?H c. seek_entry ?H ?L (rev (B1 @ p # B2 @ c # A2)) j (seek1 ! j)"
      unfolding eqA using filled .
    from less.hyps [OF len sk' c2 c3 c4 l1 c6]
    show ?thesis unfolding step eqA .
  qed
qed

lemma Find_loop_correct:
  "skel ns hgt (A1 @ c # post) \<Longrightarrow>
     Find_loop ns c pos = Some (pos + sum_list (map (ln ns) A1))"
proof (induction "length A1" arbitrary: A1 c post pos rule: less_induct)
  case less
  let ?H = "hg ns" and ?L = "ln ns"
  note sk = less.prems(1)
  have hc: "1 \<le> ?H c" using skel_hg [OF sk, of c] by auto
  show ?case
  proof (cases "c = head")
    case True
    then have "A1 = []" using skel_head_first [OF sk] by simp
    then show ?thesis using True by (subst Find_loop.simps) simp
  next
    case False
    let ?k = "?H c - 1"
    have k: "?k < ?H c" using hc by simp
    from skel_prev [OF sk False k]
    obtain B1 p B2 where B: "A1 = B1 @ p # B2" "tall ?H ?k p" "\<forall>b\<in>set B2. \<not> tall ?H ?k b"
      and pv: "prev_n (lv ns c ?k) = Some p" by blast
    have kp: "?k < ?H p" using B(2) by (simp add: tall_def)
    have sk': "skel ns hgt (B1 @ p # (B2 @ c # post))" using sk B(1) by simp
    have "lv ns p ?k = canon ?H ?L ?k B1 p (B2 @ c # post)"
      using skel_lv [OF sk' kp] .
    moreover have "takeWhile (\<lambda>b. \<not> tall ?H ?k b) (B2 @ c # post) = B2"
      using takeWhile_split [of "tall ?H ?k" c B2 post] B(3) k by (simp add: tall_def)
    ultimately have st: "subtreesize (lv ns p ?k) = ?L p + sum_list (map ?L B2)"
      by (simp add: canon_def seg_def)
    have step: "Find_loop ns c pos = Find_loop ns p (pos + subtreesize (lv ns p ?k))"
      using False hc pv kp by (subst Find_loop.simps) (auto simp: hg_def lv_def Let_def)
    have len: "length B1 < length A1" using B(1) by simp
    show ?thesis
      unfolding step less.hyps [OF len sk'] st B(1) by simp
  qed
qed

subsection \<open>The shape along the list\<close>

lemma nextK_append: "nextK T N (u @ v) = nextK T (nextK T N v) u"
  by (induction u) auto

lemma segK_append: "segK T L S (u @ v) = segK T L (segK T L S v) u"
  by (induction u) auto

lemma prevK_Nil [simp]: "prevK T P [] = P"
  by (simp add: prevK_def)

lemma prevK_append: "prevK T P (u @ v) = prevK T (prevK T P u) v"
  by (simp add: prevK_def)

lemma prevK_Cons: "prevK T P (x # v) = prevK T (if T x then x else P) v"
  by (simp add: prevK_def)

lemma prevK_snoc [simp]: "prevK T P (u @ [x]) = (if T x then x else prevK T P u)"
  by (simp add: prevK_def)

lemma nextK_short: "\<forall>x\<in>set u. \<not> T x \<Longrightarrow> nextK T N u = N"
  by (induction u) auto

lemma segK_short: "\<forall>x\<in>set u. \<not> T x \<Longrightarrow> segK T L S u = sum_list (map L u) + S"
  by (induction u) (auto simp: add.assoc)

lemma prevK_short: "\<forall>x\<in>set u. \<not> T x \<Longrightarrow> prevK T P u = P"
  by (induction u rule: rev_induct) auto

lemma nextK_find: "nextK T N u = (case find T u of None \<Rightarrow> N | Some x \<Rightarrow> Some x)"
  by (induction u) auto

lemma nextAt_nextK: "nextAt H j u = nextK (tall H j) None u"
  by (simp add: nextAt_def nextK_find split: option.splits)

lemma seg_segK: "seg H L j u = segK (tall H j) L 0 u"
  by (induction u) (auto simp: seg_def)

lemma prevK_find: "prevK T P u = (case find T (rev u) of None \<Rightarrow> P | Some x \<Rightarrow> x)"
  by (induction u rule: rev_induct) auto

lemma prevAt_prevK: "prevAt H j u = prevK (tall H j) head u"
  by (simp add: prevAt_def prevK_find)

lemma fwdc_append:
  "fwdc T L ns j N S (X @ Y)
     \<longleftrightarrow> fwdc T L ns j (nextK T N Y) (segK T L S Y) X \<and> fwdc T L ns j N S Y"
  by (induction X) (auto simp: nextK_append segK_append)

lemma bwdc_append:
  "bwdc T ns j P (X @ Y) \<longleftrightarrow> bwdc T ns j P X \<and> bwdc T ns j (prevK T P X) Y"
  by (induction X arbitrary: P) (auto simp: prevK_Cons)

lemma fwdc_short: "\<forall>x\<in>set X. \<not> T x \<Longrightarrow> fwdc T L ns j N S X"
  by (induction X) auto

lemma bwdc_short: "\<forall>x\<in>set X. \<not> T x \<Longrightarrow> bwdc T ns j P X"
  by (induction X) auto

lemma fwdc_pos:
  "fwdc T L ns j N S X \<longleftrightarrow>
     (\<forall>pre a q. X = pre @ a # q \<longrightarrow> T a \<longrightarrow>
        next_n (lv ns a j) = nextK T N q \<and> subtreesize (lv ns a j) = L a + segK T L S q)"
proof (induction X)
  case Nil then show ?case by simp
next
  case (Cons x X)
  show ?case
  proof
    assume a: "fwdc T L ns j N S (x # X)"
    show "\<forall>pre a q. x # X = pre @ a # q \<longrightarrow> T a \<longrightarrow>
        next_n (lv ns a j) = nextK T N q \<and> subtreesize (lv ns a j) = L a + segK T L S q"
    proof (intro allI impI)
      fix pre a q assume e: "x # X = pre @ a # q" and t: "T a"
      show "next_n (lv ns a j) = nextK T N q \<and> subtreesize (lv ns a j) = L a + segK T L S q"
      proof (cases pre)
        case Nil with e a t show ?thesis by simp
      next
        case (Cons y pre')
        with e have "X = pre' @ a # q" by simp
        moreover from a have "fwdc T L ns j N S X" by simp
        ultimately show ?thesis using Cons.IH t by blast
      qed
    qed
  next
    assume a: "\<forall>pre a q. x # X = pre @ a # q \<longrightarrow> T a \<longrightarrow>
        next_n (lv ns a j) = nextK T N q \<and> subtreesize (lv ns a j) = L a + segK T L S q"
    have "x # X = [] @ x # X" by simp
    with a have h: "T x \<longrightarrow> next_n (lv ns x j) = nextK T N X
        \<and> subtreesize (lv ns x j) = L x + segK T L S X" by blast
    have "\<forall>pre a q. X = pre @ a # q \<longrightarrow> T a \<longrightarrow>
        next_n (lv ns a j) = nextK T N q \<and> subtreesize (lv ns a j) = L a + segK T L S q"
    proof (intro allI impI)
      fix pre a q assume e: "X = pre @ a # q" and t: "T a"
      then have "x # X = (x # pre) @ a # q" by simp
      with a t show "next_n (lv ns a j) = nextK T N q
          \<and> subtreesize (lv ns a j) = L a + segK T L S q" by blast
    qed
    then have "fwdc T L ns j N S X" using Cons.IH by simp
    with h show "fwdc T L ns j N S (x # X)" by simp
  qed
qed

lemma bwdc_pos:
  "bwdc T ns j P X \<longleftrightarrow>
     (\<forall>pre a q. X = pre @ a # q \<longrightarrow> T a \<longrightarrow> prev_n (lv ns a j) = Some (prevK T P pre))"
proof (induction X arbitrary: P)
  case Nil then show ?case by simp
next
  case (Cons x X)
  show ?case
  proof
    assume a: "bwdc T ns j P (x # X)"
    show "\<forall>pre a q. x # X = pre @ a # q \<longrightarrow> T a \<longrightarrow>
        prev_n (lv ns a j) = Some (prevK T P pre)"
    proof (intro allI impI)
      fix pre a q assume e: "x # X = pre @ a # q" and t: "T a"
      show "prev_n (lv ns a j) = Some (prevK T P pre)"
      proof (cases pre)
        case Nil with e a t show ?thesis by simp
      next
        case (Cons y pre')
        with e have "X = pre' @ a # q" "y = x" by simp_all
        moreover from a have "bwdc T ns j (if T x then x else P) X" by simp
        ultimately have "prev_n (lv ns a j) = Some (prevK T (if T x then x else P) pre')"
          using Cons.IH t by blast
        then show ?thesis using Cons \<open>y = x\<close> by (simp add: prevK_Cons)
      qed
    qed
  next
    assume a: "\<forall>pre a q. x # X = pre @ a # q \<longrightarrow> T a \<longrightarrow>
        prev_n (lv ns a j) = Some (prevK T P pre)"
    have "x # X = [] @ x # X" by simp
    with a have h: "T x \<longrightarrow> prev_n (lv ns x j) = Some (prevK T P [])" by blast
    have "\<forall>pre a q. X = pre @ a # q \<longrightarrow> T a \<longrightarrow>
        prev_n (lv ns a j) = Some (prevK T (if T x then x else P) pre)"
    proof (intro allI impI)
      fix pre a q assume e: "X = pre @ a # q" and t: "T a"
      then have "x # X = (x # pre) @ a # q" by simp
      with a t have "prev_n (lv ns a j) = Some (prevK T P (x # pre))" by blast
      then show "prev_n (lv ns a j) = Some (prevK T (if T x then x else P) pre)"
        by (simp add: prevK_Cons)
    qed
    then have "bwdc T ns j (if T x then x else P) X" using Cons.IH by simp
    with h show "bwdc T ns j P (x # X)" by simp
  qed
qed

lemma lvl_ok_chain:
  "lvl_ok ns j full \<longleftrightarrow>
     fwdc (tall (hg ns) j) (ln ns) ns j None 0 full \<and> bwdc (tall (hg ns) j) ns j head full"
proof -
  have eq: "\<And>l pre a post. l = canon (hg ns) (ln ns) j pre a post \<longleftrightarrow>
      (next_n l = nextK (tall (hg ns) j) None post
       \<and> subtreesize l = ln ns a + segK (tall (hg ns) j) (ln ns) 0 post)
      \<and> prev_n l = Some (prevK (tall (hg ns) j) head pre)"
    by (auto simp: canon_def nextAt_nextK seg_segK prevAt_prevK)
  show ?thesis
    unfolding lvl_ok_def fwdc_pos bwdc_pos eq tall_def by blast
qed

lemma fwdc_cong:
  "(\<And>a. a \<in> set X \<Longrightarrow> T' a = T a) \<Longrightarrow> (\<And>a. a \<in> set X \<Longrightarrow> L' a = L a) \<Longrightarrow>
   (\<And>a. a \<in> set X \<Longrightarrow> T a \<Longrightarrow> next_n (lv ns' a j) = next_n (lv ns a j)
       \<and> subtreesize (lv ns' a j) = subtreesize (lv ns a j)) \<Longrightarrow>
   fwdc T' L' ns' j N S X = fwdc T L ns j N S X"
proof (induction X)
  case Nil then show ?case by simp
next
  case (Cons x X)
  have n: "nextK T' N X = nextK T N X" using Cons.prems(1) by (induction X) auto
  have s: "segK T' L' S X = segK T L S X" using Cons.prems(1,2) by (induction X) auto
  have "fwdc T' L' ns' j N S X = fwdc T L ns j N S X"
    using Cons.IH Cons.prems by simp
  then show ?case using n s Cons.prems [of x] by auto
qed

lemma bwdc_cong:
  "(\<And>a. a \<in> set X \<Longrightarrow> T' a = T a) \<Longrightarrow>
   (\<And>a. a \<in> set X \<Longrightarrow> T a \<Longrightarrow> prev_n (lv ns' a j) = prev_n (lv ns a j)) \<Longrightarrow>
   bwdc T' ns' j P X = bwdc T ns j P X"
proof (induction X arbitrary: P)
  case Nil then show ?case by simp
next
  case (Cons x X)
  have "\<And>P. bwdc T' ns' j P X = bwdc T ns j P X"
    using Cons.IH Cons.prems by simp
  then show ?case using Cons.prems [of x] by auto
qed

lemma same_meta_refl [simp]: "same_meta ns ns"
  by (simp add: same_meta_def)

lemma same_meta_trans: "same_meta ns ns1 \<Longrightarrow> same_meta ns1 ns2 \<Longrightarrow> same_meta ns ns2"
  by (simp add: same_meta_def)

lemma same_meta_upd_level [simp]: "same_meta ns (upd_level ns a j f)"
  by (simp add: same_meta_def)

lemma same_meta_hg: "same_meta ns ns' \<Longrightarrow> hg ns' = hg ns"
  by (rule ext) (simp add: same_meta_def hg_def)

lemma same_meta_ln: "same_meta ns ns' \<Longrightarrow> ln ns' = ln ns"
  by (rule ext) (simp add: same_meta_def ln_def)

lemma fwdc_split3:
  assumes "T n" "\<forall>x\<in>set A2. \<not> T x"
  shows "fwdc T L ns j N S (A1 @ n # A2 @ Y) \<longleftrightarrow>
      fwdc T L ns j (Some n) 0 A1
      \<and> next_n (lv ns n j) = nextK T N Y
      \<and> subtreesize (lv ns n j) = L n + (sum_list (map L A2) + segK T L S Y)
      \<and> fwdc T L ns j N S Y"
proof -
  have "fwdc T L ns j N S (A1 @ (n # A2 @ Y)) \<longleftrightarrow>
      fwdc T L ns j (nextK T N (n # A2 @ Y)) (segK T L S (n # A2 @ Y)) A1
      \<and> fwdc T L ns j N S (n # A2 @ Y)"
    by (rule fwdc_append)
  moreover have "fwdc T L ns j N S (A2 @ Y) \<longleftrightarrow> fwdc T L ns j N S Y"
    using assms(2) by (simp add: fwdc_append fwdc_short)
  moreover have "nextK T N (A2 @ Y) = nextK T N Y"
    using assms(2) by (simp add: nextK_append nextK_short)
  moreover have "segK T L S (A2 @ Y) = sum_list (map L A2) + segK T L S Y"
    using assms(2) by (simp add: segK_append segK_short)
  ultimately show ?thesis using assms(1) by auto
qed

lemma bwdc_split3:
  assumes "T n" "\<forall>x\<in>set A2. \<not> T x"
  shows "bwdc T ns j P (A1 @ n # A2 @ Y) \<longleftrightarrow>
      bwdc T ns j P A1 \<and> prev_n (lv ns n j) = Some (prevK T P A1) \<and> bwdc T ns j n Y"
proof -
  have "bwdc T ns j P (A1 @ (n # A2 @ Y)) \<longleftrightarrow>
      bwdc T ns j P A1 \<and> bwdc T ns j (prevK T P A1) (n # A2 @ Y)"
    by (rule bwdc_append)
  moreover have "bwdc T ns j n (A2 @ Y) \<longleftrightarrow> bwdc T ns j n Y"
    using assms(2) by (simp add: bwdc_append bwdc_short prevK_short)
  ultimately show ?thesis using assms(1) by auto
qed

lemma bwdc_first:
  assumes "T nx" "\<forall>x\<in>set u. \<not> T x"
  shows "bwdc T ns j P (u @ nx # v) \<longleftrightarrow> prev_n (lv ns nx j) = Some P \<and> bwdc T ns j nx v"
  using assms by (simp add: bwdc_append bwdc_short prevK_short)

lemma nextK_Some_split:
  "nextK T None q = Some nx \<Longrightarrow> \<exists>u v. q = u @ nx # v \<and> T nx \<and> (\<forall>x\<in>set u. \<not> T x)"
  by (simp add: nextK_find find_split split: option.splits)

lemma nextK_None_short: "nextK T None q = None \<Longrightarrow> \<forall>x\<in>set q. \<not> T x"
  by (induction q) (auto split: if_splits)

lemma lvl_ok_upd_other:
  "k \<noteq> j \<Longrightarrow> lvl_ok (upd_level ns a j f) k X = lvl_ok ns k X"
  by (simp add: lvl_ok_def lv_upd_level)

text \<open>Removing the short node \<open>e\<close> at level \<open>j\<close>.\<close>

lemma del_step_short:
  assumes d: "distinct (A1 @ n # A2 @ e # post)"
    and n: "j < hg ns n" and A2: "\<forall>x\<in>set A2. \<not> j < hg ns x" and e: "\<not> j < hg ns e"
    and ok: "lvl_ok ns j (A1 @ n # A2 @ e # post)"
  shows "lvl_ok (upd_level ns n j (\<lambda>l. l\<lparr>subtreesize := subtreesize l - ln ns e\<rparr>)) j
           (A1 @ n # A2 @ post)"
proof -
  let ?T = "tall (hg ns) j" and ?L = "ln ns"
  let ?ns = "upd_level ns n j (\<lambda>l. l\<lparr>subtreesize := subtreesize l - ln ns e\<rparr>)"
  have Tn: "?T n" and TA2: "\<forall>x\<in>set A2. \<not> ?T x" and Te: "\<not> ?T e"
    using n A2 e by (simp_all add: tall_def)
  from ok have F: "fwdc ?T ?L ns j None 0 (A1 @ n # A2 @ e # post)"
    and B: "bwdc ?T ns j head (A1 @ n # A2 @ e # post)"
    by (simp_all add: lvl_ok_chain)
  from F have F1: "fwdc ?T ?L ns j (Some n) 0 A1"
    and F2: "next_n (lv ns n j) = nextK ?T None post"
    and F3: "subtreesize (lv ns n j) = ?L n + (sum_list (map ?L A2) + (?L e + segK ?T ?L 0 post))"
    and F4: "fwdc ?T ?L ns j None 0 post"
    unfolding fwdc_split3 [OF Tn TA2] using Te by simp_all
  from B have B1: "bwdc ?T ns j head A1"
    and B2: "prev_n (lv ns n j) = Some (prevK ?T head A1)"
    and B3: "bwdc ?T ns j n post"
    unfolding bwdc_split3 [OF Tn TA2] using Te by simp_all
  have nA1: "n \<notin> set A1" and npost: "n \<notin> set post" using d by auto
  have F1': "fwdc ?T ?L ?ns j (Some n) 0 A1"
    using F1 nA1 by (subst fwdc_cong [where T = ?T and L = ?L and ns = ns]) (auto simp: lv_upd_level)
  have F4': "fwdc ?T ?L ?ns j None 0 post"
    using F4 npost by (subst fwdc_cong [where T = ?T and L = ?L and ns = ns]) (auto simp: lv_upd_level)
  have B1': "bwdc ?T ?ns j head A1"
    using B1 by (subst bwdc_cong [where T = ?T and ns = ns]) (auto simp: lv_upd_level)
  have B3': "bwdc ?T ?ns j n post"
    using B3 by (subst bwdc_cong [where T = ?T and ns = ns]) (auto simp: lv_upd_level)
  have "fwdc ?T ?L ?ns j None 0 (A1 @ n # A2 @ post)"
    unfolding fwdc_split3 [OF Tn TA2] using F1' F4' F2 F3 n by (simp add: lv_upd_level)
  moreover have "bwdc ?T ?ns j head (A1 @ n # A2 @ post)"
    unfolding bwdc_split3 [OF Tn TA2] using B1' B3' B2 n by (simp add: lv_upd_level)
  ultimately show ?thesis by (simp add: lvl_ok_chain)
qed

lemma del_old_tall:
  assumes n: "j < hg ns n" and A2: "\<forall>x\<in>set A2. \<not> j < hg ns x" and e: "j < hg ns e"
    and ok: "lvl_ok ns j (A1 @ n # A2 @ e # post)"
  shows "fwdc (tall (hg ns) j) (ln ns) ns j (Some n) 0 A1"
    and "next_n (lv ns e j) = nextK (tall (hg ns) j) None post"
    and "subtreesize (lv ns n j) = ln ns n + sum_list (map (ln ns) A2)"
    and "subtreesize (lv ns e j) = ln ns e + segK (tall (hg ns) j) (ln ns) 0 post"
    and "fwdc (tall (hg ns) j) (ln ns) ns j None 0 post"
    and "bwdc (tall (hg ns) j) ns j head A1"
    and "prev_n (lv ns n j) = Some (prevK (tall (hg ns) j) head A1)"
    and "bwdc (tall (hg ns) j) ns j e post"
proof -
  let ?T = "tall (hg ns) j" and ?L = "ln ns"
  have Tn: "?T n" and TA2: "\<forall>x\<in>set A2. \<not> ?T x" and Te: "?T e"
    using n A2 e by (simp_all add: tall_def)
  from ok have F: "fwdc ?T ?L ns j None 0 (A1 @ n # A2 @ e # post)"
    and B: "bwdc ?T ns j head (A1 @ n # A2 @ e # post)"
    by (simp_all add: lvl_ok_chain)
  from F show "fwdc ?T ?L ns j (Some n) 0 A1"
    and "next_n (lv ns e j) = nextK ?T None post"
    and "subtreesize (lv ns n j) = ?L n + sum_list (map ?L A2)"
    and "subtreesize (lv ns e j) = ?L e + segK ?T ?L 0 post"
    and "fwdc ?T ?L ns j None 0 post"
    unfolding fwdc_split3 [OF Tn TA2] using Te by simp_all
  from B show "bwdc ?T ns j head A1"
    and "prev_n (lv ns n j) = Some (prevK ?T head A1)"
    and "bwdc ?T ns j e post"
    unfolding bwdc_split3 [OF Tn TA2] using Te by simp_all
qed

text \<open>Removing the tall node \<open>e\<close> at level \<open>j\<close>, no tall node after it.\<close>

lemma del_step_tall_None:
  assumes d: "distinct (A1 @ n # A2 @ e # post)"
    and n: "j < hg ns n" and A2: "\<forall>x\<in>set A2. \<not> j < hg ns x" and e: "j < hg ns e"
    and ok: "lvl_ok ns j (A1 @ n # A2 @ e # post)"
    and nx: "next_n (lv ns e j) = None"
  shows "lvl_ok
           (upd_level
              (upd_level ns n j
                 (\<lambda>l. l\<lparr>subtreesize := subtreesize l + (subtreesize (lv ns e j) - ln ns e)\<rparr>))
              n j (\<lambda>l. l\<lparr>next_n := None\<rparr>))
           j (A1 @ n # A2 @ post)"
proof -
  let ?T = "tall (hg ns) j" and ?L = "ln ns"
  let ?ns = "upd_level
              (upd_level ns n j
                 (\<lambda>l. l\<lparr>subtreesize := subtreesize l + (subtreesize (lv ns e j) - ln ns e)\<rparr>))
              n j (\<lambda>l. l\<lparr>next_n := None\<rparr>)"
  have Tn: "?T n" and TA2: "\<forall>x\<in>set A2. \<not> ?T x"
    using n A2 by (simp_all add: tall_def)
  note old = del_old_tall [OF n A2 e ok]
  have nA1: "n \<notin> set A1" and npost: "n \<notin> set post" using d by auto
  have "nextK ?T None post = None" using old(2) nx by simp
  then have sh: "\<forall>x\<in>set post. \<not> ?T x" by (rule nextK_None_short)
  have F1': "fwdc ?T ?L ?ns j (Some n) 0 A1"
    using old(1) nA1
    by (subst fwdc_cong [where T = ?T and L = ?L and ns = ns]) (auto simp: lv_upd_level)
  have B1': "bwdc ?T ?ns j head A1"
    using old(6) by (subst bwdc_cong [where T = ?T and ns = ns]) (auto simp: lv_upd_level)
  have "fwdc ?T ?L ?ns j None 0 (A1 @ n # A2 @ post)"
    unfolding fwdc_split3 [OF Tn TA2]
    using F1' old(2,3,4) nx n sh by (simp add: lv_upd_level fwdc_short nextK_short)
  moreover have "bwdc ?T ?ns j head (A1 @ n # A2 @ post)"
    unfolding bwdc_split3 [OF Tn TA2] using B1' old(7) n sh by (simp add: lv_upd_level bwdc_short)
  ultimately show ?thesis by (simp add: lvl_ok_chain)
qed

text \<open>Removing the tall node \<open>e\<close> at level \<open>j\<close>, \<open>nx\<close> the next tall node.\<close>

lemma del_step_tall_Some:
  assumes d: "distinct (A1 @ n # A2 @ e # post)"
    and n: "j < hg ns n" and A2: "\<forall>x\<in>set A2. \<not> j < hg ns x" and e: "j < hg ns e"
    and ok: "lvl_ok ns j (A1 @ n # A2 @ e # post)"
    and nx: "next_n (lv ns e j) = Some nx"
  shows "j < hg ns nx"
    and "lvl_ok
           (upd_level
              (upd_level
                 (upd_level ns n j
                    (\<lambda>l. l\<lparr>subtreesize := subtreesize l + (subtreesize (lv ns e j) - ln ns e)\<rparr>))
                 nx j (\<lambda>l. l\<lparr>prev_n := Some n\<rparr>))
              n j (\<lambda>l. l\<lparr>next_n := Some nx\<rparr>))
           j (A1 @ n # A2 @ post)"
proof -
  let ?T = "tall (hg ns) j" and ?L = "ln ns"
  let ?ns = "upd_level
              (upd_level
                 (upd_level ns n j
                    (\<lambda>l. l\<lparr>subtreesize := subtreesize l + (subtreesize (lv ns e j) - ln ns e)\<rparr>))
                 nx j (\<lambda>l. l\<lparr>prev_n := Some n\<rparr>))
              n j (\<lambda>l. l\<lparr>next_n := Some nx\<rparr>)"
  have Tn: "?T n" and TA2: "\<forall>x\<in>set A2. \<not> ?T x"
    using n A2 by (simp_all add: tall_def)
  note old = del_old_tall [OF n A2 e ok]
  from old(2) nx have "nextK ?T None post = Some nx" by simp
  from nextK_Some_split [OF this]
  obtain u v where uv: "post = u @ nx # v" "?T nx" "\<forall>x\<in>set u. \<not> ?T x" by blast
  show jnx: "j < hg ns nx" using uv(2) by (simp add: tall_def)
  have nA1: "n \<notin> set A1" and npost: "n \<notin> set post" and nnx: "nx \<noteq> n"
    and nxA1: "nx \<notin> set A1" and nxv: "nx \<notin> set v" and nv: "n \<notin> set v"
    using d uv(1) by auto
  have F1': "fwdc ?T ?L ?ns j (Some n) 0 A1"
    using old(1) nA1 nxA1
    by (subst fwdc_cong [where T = ?T and L = ?L and ns = ns]) (auto simp: lv_upd_level)
  have F4': "fwdc ?T ?L ?ns j None 0 post"
    using old(5) npost
    by (subst fwdc_cong [where T = ?T and L = ?L and ns = ns]) (auto simp: lv_upd_level)
  have B1': "bwdc ?T ?ns j head A1"
    using old(6) nxA1
    by (subst bwdc_cong [where T = ?T and ns = ns]) (auto simp: lv_upd_level)
  from old(8) have Bv: "bwdc ?T ns j nx v"
    unfolding uv(1) bwdc_first [OF uv(2,3)] by simp
  have Bv': "bwdc ?T ?ns j nx v"
    using Bv nxv nv
    by (subst bwdc_cong [where T = ?T and ns = ns]) (auto simp: lv_upd_level)
  have B3': "bwdc ?T ?ns j n post"
    unfolding uv(1) bwdc_first [OF uv(2,3)] using Bv' jnx nnx by (simp add: lv_upd_level)
  have "fwdc ?T ?L ?ns j None 0 (A1 @ n # A2 @ post)"
    unfolding fwdc_split3 [OF Tn TA2]
    using F1' F4' old(2,3,4) nx n nnx by (simp add: lv_upd_level)
  moreover have "bwdc ?T ?ns j head (A1 @ n # A2 @ post)"
    unfolding bwdc_split3 [OF Tn TA2] using B1' B3' old(7) n nnx by (simp add: lv_upd_level)
  ultimately show "lvl_ok ?ns j (A1 @ n # A2 @ post)" by (simp add: lvl_ok_chain)
qed

lemma del_levels_unf:
  "del_levels ns hgt seek e j =
     (if j < hgt then
        (if length seek \<le> j then None
         else case node_s (seek ! j) of
           None \<Rightarrow> None
         | Some n \<Rightarrow>
             if hg ns n \<le> j then None
             else if hg ns e \<le> j then
               del_levels
                 (upd_level ns n j (\<lambda>l. l\<lparr>subtreesize := subtreesize l - ln ns e\<rparr>))
                 hgt seek e (Suc j)
             else
               (case next_n (lv ns e j) of
                  None \<Rightarrow>
                    del_levels
                      (upd_level
                         (upd_level ns n j
                            (\<lambda>l. l\<lparr>subtreesize :=
                                     subtreesize l + (subtreesize (lv ns e j) - ln ns e)\<rparr>))
                         n j (\<lambda>l. l\<lparr>next_n := None\<rparr>))
                      hgt seek e (Suc j)
                | Some nx \<Rightarrow>
                    if hg ns nx \<le> j then None
                    else
                      del_levels
                        (upd_level
                           (upd_level
                              (upd_level ns n j
                                 (\<lambda>l. l\<lparr>subtreesize :=
                                          subtreesize l + (subtreesize (lv ns e j) - ln ns e)\<rparr>))
                              nx j (\<lambda>l. l\<lparr>prev_n := Some n\<rparr>))
                           n j (\<lambda>l. l\<lparr>next_n := Some nx\<rparr>))
                        hgt seek e (Suc j)))
      else Some ns)"
  by (subst del_levels.simps) (auto simp: hg_def lv_def ln_def Let_def split: option.splits)

lemma del_levels_correct:
  assumes "distinct (A @ e # post)"
    and "seek_ok (hg ns) (ln ns) hgt (rev A) seek"
    and "\<forall>k<j. lvl_ok ns k (A @ post)"
    and "\<forall>k. j \<le> k \<longrightarrow> k < hgt \<longrightarrow> lvl_ok ns k (A @ e # post)"
  shows "\<exists>ns'. del_levels ns hgt seek e j = Some ns' \<and> same_meta ns ns'
           \<and> (\<forall>k<hgt. lvl_ok ns' k (A @ post))"
  using assms
proof (induction "hgt - j" arbitrary: ns j)
  case 0
  then have "\<not> j < hgt" by simp
  then show ?case using "0.prems"(3) by (subst del_levels_unf) auto
next
  case (Suc m)
  then have j: "j < hgt" by simp
  note d = Suc.prems(1) and sk = Suc.prems(2) and lo = Suc.prems(3) and hi = Suc.prems(4)
  from sk j obtain n where ls: "length seek = hgt"
    and fn: "find (tall (hg ns) j) (rev A) = Some n"
    and sj: "node_s (seek ! j) = Some n"
    unfolding seek_ok_def seek_entry_def by auto
  from fn obtain A1 A2 where A: "A = A1 @ n # A2" and Tn: "tall (hg ns) j n"
    and TA2: "\<forall>x\<in>set A2. \<not> tall (hg ns) j x"
    unfolding find_rev_split by blast
  have n: "j < hg ns n" and A2: "\<forall>x\<in>set A2. \<not> j < hg ns x"
    using Tn TA2 by (simp_all add: tall_def)
  have d': "distinct (A1 @ n # A2 @ e # post)" using d A by simp
  have ok: "lvl_ok ns j (A1 @ n # A2 @ e # post)" using hi j A by simp
  have m: "m = hgt - Suc j" using Suc.hyps(2) by simp
  have fin: "\<And>ns1. same_meta ns ns1 \<Longrightarrow> lvl_ok ns1 j (A @ post) \<Longrightarrow>
      (\<And>k. k \<noteq> j \<Longrightarrow> lvl_ok ns1 k (A @ post) = lvl_ok ns k (A @ post)) \<Longrightarrow>
      (\<And>k. k \<noteq> j \<Longrightarrow> lvl_ok ns1 k (A @ e # post) = lvl_ok ns k (A @ e # post)) \<Longrightarrow>
      \<exists>ns'. del_levels ns1 hgt seek e (Suc j) = Some ns' \<and> same_meta ns ns'
           \<and> (\<forall>k<hgt. lvl_ok ns' k (A @ post))"
  proof -
    fix ns1
    assume sm: "same_meta ns ns1" and okj: "lvl_ok ns1 j (A @ post)"
      and o1: "\<And>k. k \<noteq> j \<Longrightarrow> lvl_ok ns1 k (A @ post) = lvl_ok ns k (A @ post)"
      and o2: "\<And>k. k \<noteq> j \<Longrightarrow> lvl_ok ns1 k (A @ e # post) = lvl_ok ns k (A @ e # post)"
    have sk1: "seek_ok (hg ns1) (ln ns1) hgt (rev A) seek"
      using sk same_meta_hg [OF sm] same_meta_ln [OF sm] by simp
    have lo1: "\<forall>k<Suc j. lvl_ok ns1 k (A @ post)"
      using lo okj o1 by (auto simp: less_Suc_eq)
    have hi1: "\<forall>k. Suc j \<le> k \<longrightarrow> k < hgt \<longrightarrow> lvl_ok ns1 k (A @ e # post)"
      using hi o2 by auto
    from Suc.hyps(1) [OF m d sk1 lo1 hi1]
    obtain ns' where "del_levels ns1 hgt seek e (Suc j) = Some ns'" "same_meta ns1 ns'"
      "\<forall>k<hgt. lvl_ok ns' k (A @ post)" by blast
    then show "\<exists>ns'. del_levels ns1 hgt seek e (Suc j) = Some ns' \<and> same_meta ns ns'
           \<and> (\<forall>k<hgt. lvl_ok ns' k (A @ post))"
      using same_meta_trans [OF sm] by blast
  qed
  show ?case
  proof (cases "j < hg ns e")
    case False
    let ?ns1 = "upd_level ns n j (\<lambda>l. l\<lparr>subtreesize := subtreesize l - ln ns e\<rparr>)"
    have "lvl_ok ?ns1 j (A @ post)"
      using del_step_short [OF d' n A2 False ok] A by simp
    from fin [OF _ this] have
      "\<exists>ns'. del_levels ?ns1 hgt seek e (Suc j) = Some ns' \<and> same_meta ns ns'
           \<and> (\<forall>k<hgt. lvl_ok ns' k (A @ post))"
      by (simp add: lvl_ok_upd_other)
    then show ?thesis using j ls sj n False by (subst del_levels_unf) simp
  next
    case True
    show ?thesis
    proof (cases "next_n (lv ns e j)")
      case None
      let ?ns1 = "upd_level
                    (upd_level ns n j
                       (\<lambda>l. l\<lparr>subtreesize :=
                                subtreesize l + (subtreesize (lv ns e j) - ln ns e)\<rparr>))
                    n j (\<lambda>l. l\<lparr>next_n := None\<rparr>)"
      have "lvl_ok ?ns1 j (A @ post)"
        using del_step_tall_None [OF d' n A2 True ok None] A by simp
      from fin [OF _ this] have
        "\<exists>ns'. del_levels ?ns1 hgt seek e (Suc j) = Some ns' \<and> same_meta ns ns'
           \<and> (\<forall>k<hgt. lvl_ok ns' k (A @ post))"
        by (simp add: lvl_ok_upd_other same_meta_def)
      then show ?thesis using j ls sj n True None by (subst del_levels_unf) simp
    next
      case (Some nx)
      let ?ns1 = "upd_level
                    (upd_level
                       (upd_level ns n j
                          (\<lambda>l. l\<lparr>subtreesize :=
                                   subtreesize l + (subtreesize (lv ns e j) - ln ns e)\<rparr>))
                       nx j (\<lambda>l. l\<lparr>prev_n := Some n\<rparr>))
                    n j (\<lambda>l. l\<lparr>next_n := Some nx\<rparr>)"
      note st = del_step_tall_Some [OF d' n A2 True ok Some]
      have "lvl_ok ?ns1 j (A @ post)" using st(2) A by simp
      from fin [OF _ this] have
        "\<exists>ns'. del_levels ?ns1 hgt seek e (Suc j) = Some ns' \<and> same_meta ns ns'
           \<and> (\<forall>k<hgt. lvl_ok ns' k (A @ post))"
        by (simp add: lvl_ok_upd_other same_meta_def)
      then show ?thesis using j ls sj n True Some st(1) by (subst del_levels_unf) simp
    qed
  qed
qed

lemma lvl_ok_cong:
  assumes "\<And>a. a \<in> set full \<Longrightarrow> levels (ns' a) = levels (ns a) \<and> Len (dl (ns' a)) = Len (dl (ns a))"
  shows "lvl_ok ns' j full = lvl_ok ns j full"
proof -
  have T: "\<And>a. a \<in> set full \<Longrightarrow> tall (hg ns') j a = tall (hg ns) j a"
    using assms by (simp add: tall_def hg_def)
  have L: "\<And>a. a \<in> set full \<Longrightarrow> ln ns' a = ln ns a"
    using assms by (simp add: ln_def)
  have V: "\<And>a. a \<in> set full \<Longrightarrow> lv ns' a j = lv ns a j"
    using assms by (simp add: lv_def)
  show ?thesis
    unfolding lvl_ok_chain
    using fwdc_cong [of full "tall (hg ns') j" "tall (hg ns) j" "ln ns'" "ln ns" ns' j ns None 0]
      bwdc_cong [of full "tall (hg ns') j" "tall (hg ns) j" ns' j ns head] T L V
    by simp
qed

lemma lvl_ok_vacuous: "\<forall>a\<in>set full. hg ns a \<le> j \<Longrightarrow> lvl_ok ns j full"
  unfolding lvl_ok_def by (metis in_set_conv_decomp not_less)

lemma skel_next0:
  assumes "skel ns hgt (A @ post)" "A \<noteq> []"
  shows "next0 ns (last A) = (case post of [] \<Rightarrow> None | e # _ \<Rightarrow> Some e)"
proof -
  from assms(2) obtain A' a where A: "A = A' @ [a]" by (metis rev_exhaust)
  have sk: "skel ns hgt (A' @ a # post)" using assms(1) A by simp
  have h: "1 \<le> hg ns a" using skel_hg [OF sk, of a] by simp
  then have "lv ns a 0 = canon (hg ns) (ln ns) 0 A' a post" using skel_lv [OF sk, of 0] by simp
  moreover have "nextAt (hg ns) 0 post = (case post of [] \<Rightarrow> None | e # _ \<Rightarrow> Some e)"
  proof (cases post)
    case Nil then show ?thesis by (simp add: nextAt_def)
  next
    case (Cons e post')
    then have "1 \<le> hg ns e" using skel_hg [OF sk, of e] by simp
    then show ?thesis using Cons by (simp add: nextAt_def tall_def)
  qed
  moreover have "levels (ns a) \<noteq> []" using h by (auto simp: hg_def)
  ultimately show ?thesis
    using A by (cases "levels (ns a)") (auto simp: next0_def lv_def canon_def)
qed

lemma returnToPool_frame:
  "height (returnToPool e r) = height r \<and> len (returnToPool e r) = len r
   \<and> byId (returnToPool e r) = byId r \<and> lastId (returnToPool e r) = lastId r
   \<and> nalloc (returnToPool e r) = nalloc r
   \<and> (\<forall>a. a \<noteq> e \<longrightarrow> nodes (returnToPool e r) a = nodes r a)
   \<and> hg (nodes (returnToPool e r)) = hg (nodes r)
   \<and> set (nodePool (returnToPool e r)) \<subseteq> insert e (set (nodePool r))
   \<and> (e \<notin> set (nodePool r) \<longrightarrow> distinct (nodePool r) \<longrightarrow> distinct (nodePool (returnToPool e r)))"
  by (auto simp: returnToPool_def hg_def)

lemma delete_one_correct:
  assumes inv: "rope_inv r (pre @ e # post)"
    and sk: "seek_ok (hg (nodes r)) (ln (nodes r)) (height r) (rev (head # pre)) seek"
  shows "\<exists>r'. delete_one r seek e = Some (rec_of (nodes r) e, r')
           \<and> rope_inv r' (pre @ post)
           \<and> height r' = height r \<and> lastId r' = lastId r
           \<and> len r' = len r - ln (nodes r) e
           \<and> byId r' = (byId r)(id_n (nodes r e) := None)
           \<and> (\<forall>a. a \<noteq> e \<longrightarrow> id_n (nodes r' a) = id_n (nodes r a)
                  \<and> dl (nodes r' a) = dl (nodes r a))
           \<and> hg (nodes r') = hg (nodes r)"
proof -
  let ?ns = "nodes r" and ?A = "head # pre" and ?hgt = "height r"
  from inv have skl: "skel ?ns ?hgt (?A @ e # post)" by (simp add: rope_inv_def)
  then have d: "distinct (?A @ e # post)" and lok: "\<forall>j. lvl_ok ?ns j (?A @ e # post)"
    and hh: "hg ?ns head = ?hgt"
    and hb: "\<forall>a\<in>set (?A @ e # post). 1 \<le> hg ?ns a \<and> hg ?ns a \<le> ?hgt"
    unfolding skel_def by auto
  have he: "1 \<le> hg ?ns e" using hb by simp
  then obtain e0 es where lev: "levels (?ns e) = e0 # es" by (cases "levels (?ns e)") (auto simp: hg_def)
  define ns1 where "ns1 = (case iterRef (?ns e) of None \<Rightarrow> ?ns
      | Some ir \<Rightarrow> ?ns(e := (?ns e)\<lparr>iterRef := Some (ir\<lparr>node_i := prev_n e0\<rparr>)\<rparr>))"
  have ns1: "\<And>a. levels (ns1 a) = levels (?ns a) \<and> dl (ns1 a) = dl (?ns a)
      \<and> id_n (ns1 a) = id_n (?ns a)"
    by (auto simp: ns1_def split: option.splits)
  have hg1: "hg ns1 = hg ?ns" and ln1: "ln ns1 = ln ?ns"
    using ns1 by (auto simp: hg_def ln_def)
  have it: "(case iterRef (?ns e) of None \<Rightarrow> Some ?ns
      | Some ir \<Rightarrow> (case levels (?ns e) of [] \<Rightarrow> None
                    | e0 # _ \<Rightarrow> Some (?ns(e := (?ns e)\<lparr>iterRef := Some (ir\<lparr>node_i := prev_n e0\<rparr>)\<rparr>))))
      = Some ns1"
    by (simp add: ns1_def lev split: option.splits)
  have sk1: "seek_ok (hg ns1) (ln ns1) ?hgt (rev ?A) seek" using sk hg1 ln1 by simp
  have hi1: "\<forall>k. 0 \<le> k \<longrightarrow> k < ?hgt \<longrightarrow> lvl_ok ns1 k (?A @ e # post)"
    using lok lvl_ok_cong [of "?A @ e # post" ns1 ?ns] ns1 by simp
  from del_levels_correct [OF d sk1 _ hi1]
  obtain ns2 where dl2: "del_levels ns1 ?hgt seek e 0 = Some ns2" and sm: "same_meta ns1 ns2"
    and ok2: "\<forall>k<?hgt. lvl_ok ns2 k (?A @ post)" by auto
  have hg2: "hg ns2 = hg ?ns" and ln2: "ln ns2 = ln ?ns"
    using same_meta_hg [OF sm] same_meta_ln [OF sm] hg1 ln1 by simp_all
  have m2: "\<And>a. id_n (ns2 a) = id_n (?ns a) \<and> dl (ns2 a) = dl (?ns a)"
    using sm ns1 by (simp add: same_meta_def)
  define r2 where "r2 = r\<lparr>nodes := ns2, byId := (byId r)(id_n (?ns e) := None),
      len := len r - Len (dl (?ns e))\<rparr>"
  define r' where "r' = returnToPool e r2"
  have run: "delete_one r seek e = Some (rec_of ?ns e, r')"
    unfolding delete_one_def Let_def it by (simp add: dl2 rec_of_def r'_def r2_def)
  note fr = returnToPool_frame [of e r2, folded r'_def]
  have nd: "\<And>a. a \<noteq> e \<Longrightarrow> nodes r' a = ns2 a" using fr by (simp add: r2_def)
  have hg': "hg (nodes r') = hg ?ns" using fr hg2 by (simp add: r2_def)
  have eA: "e \<notin> set (?A @ post)" using d by auto
  have nd': "\<And>a. a \<in> set (?A @ post) \<Longrightarrow> nodes r' a = ns2 a" using nd eA by metis
  have hall: "\<forall>a\<in>set (?A @ post). hg ns2 a \<le> ?hgt" using hb hg2 by auto
  have ok2': "\<forall>j. lvl_ok ns2 j (?A @ post)"
  proof
    fix j show "lvl_ok ns2 j (?A @ post)"
    proof (cases "j < ?hgt")
      case True then show ?thesis using ok2 by simp
    next
      case False
      then have "\<forall>a\<in>set (?A @ post). hg ns2 a \<le> j" using hall by (meson le_trans not_less)
      then show ?thesis by (rule lvl_ok_vacuous)
    qed
  qed
  have ok': "\<forall>j. lvl_ok (nodes r') j (?A @ post)"
  proof
    fix j
    have "lvl_ok (nodes r') j (?A @ post) = lvl_ok ns2 j (?A @ post)"
      by (rule lvl_ok_cong) (simp only: nd' simp_thms)
    then show "lvl_ok (nodes r') j (?A @ post)" using ok2' by simp
  qed
  have skel': "skel (nodes r') (height r') (?A @ post)"
    unfolding skel_def
    using ok' d hg' hh hb fr skl by (auto simp: r2_def skel_def)
  from inv have idh: "id_n (?ns head) = 0" and lnh: "ln ?ns head = 0"
    and hm: "?hgt \<le> maxHeight"
    and idx: "\<forall>i a. byId r i = Some a \<longleftrightarrow> a \<in> set (?A @ e # post) \<and> id_n (?ns a) = i"
    and ln: "len r = sum_list (map (ln ?ns) (?A @ e # post))"
    and pd: "distinct (nodePool r)" and pi: "set (nodePool r) \<inter> set (?A @ e # post) = {}"
    and al: "\<forall>a\<in>set (?A @ e # post) \<union> set (nodePool r). a < nalloc r"
    by (simp_all add: rope_inv_def)
  have hne: "head \<noteq> e" using d by auto
  have meta': "\<And>a. a \<noteq> e \<Longrightarrow> id_n (nodes r' a) = id_n (?ns a) \<and> dl (nodes r' a) = dl (?ns a)"
    using nd m2 by simp
  have ln': "\<And>a. a \<noteq> e \<Longrightarrow> ln (nodes r') a = ln ?ns a" using meta' by (simp add: ln_def)
  have idx': "\<forall>i a. byId r' i = Some a \<longleftrightarrow> a \<in> set (?A @ post) \<and> id_n (nodes r' a) = i"
  proof (intro allI)
    fix i a
    have b: "byId r' i = (if i = id_n (?ns e) then None else byId r i)"
      using fr by (simp add: r2_def)
    show "byId r' i = Some a \<longleftrightarrow> a \<in> set (?A @ post) \<and> id_n (nodes r' a) = i"
    proof (cases "a = e")
      case True
      have "byId r i = Some e \<longrightarrow> i = id_n (?ns e)" using idx by metis
      then show ?thesis using True eA b by auto
    next
      case False
      have "byId r (id_n (?ns e)) = Some e" using idx by simp
      then have "id_n (?ns a) = id_n (?ns e) \<longrightarrow> a \<notin> set (?A @ e # post)"
        using idx False by (metis option.inject)
      then show ?thesis using False b idx meta' [OF False] by auto
    qed
  qed
  have "sum_list (map (ln (nodes r')) (?A @ post)) = sum_list (map (ln ?ns) (?A @ post))"
    by (rule arg_cong [where f = sum_list], rule map_cong) (use nd' m2 in \<open>simp_all add: ln_def\<close>)
  then have len': "len r' = sum_list (map (ln (nodes r')) (?A @ post))"
    using fr ln by (simp add: r2_def ln_def)
  have ep: "e \<notin> set (nodePool r)" using pi by auto
  have pool': "distinct (nodePool r') \<and> set (nodePool r') \<inter> set (?A @ post) = {}
      \<and> (\<forall>a\<in>set (?A @ post) \<union> set (nodePool r'). a < nalloc r')"
    using fr pd pi al ep eA by (auto simp: r2_def)
  have "rope_inv r' (pre @ post)"
    unfolding rope_inv_def
    using skel' idx' len' pool' fr hm idh lnh hne meta' [of head] ln' [of head]
    by (simp add: r2_def)
  moreover have "height r' = height r \<and> lastId r' = lastId r \<and> len r' = len r - ln ?ns e
      \<and> byId r' = (byId r)(id_n (?ns e) := None)"
    using fr by (simp add: r2_def ln_def)
  ultimately show ?thesis using run meta' hg' by blast
qed

lemma rope_inv_lastId [simp]: "rope_inv (r\<lparr>lastId := x\<rparr>) xs = rope_inv r xs"
  by (simp add: rope_inv_def)

lemma seek_ok_cong:
  assumes "\<And>a. a \<in> set rp \<Longrightarrow> H' a = H a \<and> L' a = L a"
  shows "seek_ok H' L' hgt rp seek = seek_ok H L hgt rp seek"
proof -
  have t: "\<And>j. find (tall H' j) rp = find (tall H j) rp"
    by (rule find_cong) (use assms in \<open>auto simp: tall_def\<close>)
  have w: "\<And>j. takeWhile (\<lambda>b. \<not> tall H' j b) rp = takeWhile (\<lambda>b. \<not> tall H j b) rp"
    by (rule takeWhile_cong) (use assms in \<open>auto simp: tall_def\<close>)
  have m: "\<And>j. map L' (takeWhile (\<lambda>b. \<not> tall H j b) rp) = map L (takeWhile (\<lambda>b. \<not> tall H j b) rp)"
    by (rule map_cong) (use assms in \<open>auto dest: set_takeWhileD\<close>)
  have f: "\<And>j n. find (tall H j) rp = Some n \<Longrightarrow> L' n = L n"
    using assms by (auto simp: find_Some_iff)
  show ?thesis
    unfolding seek_ok_def seek_entry_def t w m using f by (auto cong: conj_cong)
qed

lemma delete_loop_unf:
  "levels (nodes r after) \<noteq> [] \<Longrightarrow>
   delete_loop r seek after X removed =
     (case next0 (nodes r) after of
        None \<Rightarrow> Some (removed, r\<lparr>lastId := id_n (nodes r after)\<rparr>)
      | Some e \<Rightarrow>
          (case delete_one r seek e of
             None \<Rightarrow> None
           | Some (rec, r1) \<Rightarrow>
               if Id_r rec = X then Some (removed @ [rec], r1)
               else delete_loop r1 seek after X (removed @ [rec])))"
  by (subst delete_loop.simps) (auto simp: next0_def split: list.splits)

lemma rope_inv_levels_ne:
  "rope_inv r xs \<Longrightarrow> a \<in> set (head # xs) \<Longrightarrow> levels (nodes r a) \<noteq> []"
  using skel_hg [of "nodes r" "height r" "head # xs" a]
  by (auto simp: rope_inv_def hg_def)

lemma delete_loop_correct:
  assumes "rope_inv r (pre @ rest)"
    and "seek_ok (hg (nodes r)) (ln (nodes r)) (height r) (rev (head # pre)) seek"
    and "after = last (head # pre)"
  shows "\<exists>r'. delete_loop r seek after X removed
              = Some (removed @ map (rec_of (nodes r)) (cut (nodes r) X rest), r')
           \<and> rope_inv r' (pre @ drop (length (cut (nodes r) X rest)) rest)
           \<and> height r' = height r
           \<and> len r' = len r - sum_list (map (ln (nodes r)) (cut (nodes r) X rest))
           \<and> (\<forall>i. byId r' i = (if i \<in> (\<lambda>a. id_n (nodes r a)) ` set (cut (nodes r) X rest)
                                then None else byId r i))
           \<and> (\<forall>a. a \<notin> set (cut (nodes r) X rest) \<longrightarrow>
                  id_n (nodes r' a) = id_n (nodes r a) \<and> dl (nodes r' a) = dl (nodes r a))
           \<and> hg (nodes r') = hg (nodes r)"
  using assms
proof (induction rest arbitrary: r removed)
  case Nil
  note inv = Nil.prems(1)
  have ain: "after \<in> set (head # pre)" using Nil.prems(3) by (metis last_in_set list.discI)
  then have lne: "levels (nodes r after) \<noteq> []" using rope_inv_levels_ne [OF inv] by simp
  have sk: "skel (nodes r) (height r) ((head # pre) @ [])" using inv by (simp add: rope_inv_def)
  have "next0 (nodes r) after = None"
    using skel_next0 [OF sk] Nil.prems(3) by simp
  then show ?case using inv by (simp add: delete_loop_unf [OF lne])
next
  case (Cons e rest)
  note inv = Cons.prems(1) and sko = Cons.prems(2)
  have ain: "after \<in> set (head # pre)" using Cons.prems(3) by (metis last_in_set list.discI)
  then have lne: "levels (nodes r after) \<noteq> []" using rope_inv_levels_ne [OF inv, of after] by auto
  have sk: "skel (nodes r) (height r) ((head # pre) @ e # rest)" using inv by (simp add: rope_inv_def)
  then have d: "distinct ((head # pre) @ e # rest)" unfolding skel_def by blast
  have nx: "next0 (nodes r) after = Some e"
    using skel_next0 [OF sk] Cons.prems(3) by simp
  from delete_one_correct [OF inv sko]
  obtain r1 where one: "delete_one r seek e = Some (rec_of (nodes r) e, r1)"
    and inv1: "rope_inv r1 (pre @ rest)"
    and h1: "height r1 = height r" and len1: "len r1 = len r - ln (nodes r) e"
    and by1: "byId r1 = (byId r)(id_n (nodes r e) := None)"
    and m1: "\<forall>a. a \<noteq> e \<longrightarrow> id_n (nodes r1 a) = id_n (nodes r a) \<and> dl (nodes r1 a) = dl (nodes r a)"
    and hg1: "hg (nodes r1) = hg (nodes r)"
    by blast
  show ?case
  proof (cases "id_n (nodes r e) = X")
    case True
    have "delete_loop r seek after X removed = Some (removed @ [rec_of (nodes r) e], r1)"
      using nx one True by (simp add: delete_loop_unf [OF lne] rec_of_def)
    then show ?thesis using True inv1 h1 len1 by1 m1 hg1 by (simp add: ln_def)
  next
    case False
    have step: "delete_loop r seek after X removed
        = delete_loop r1 seek after X (removed @ [rec_of (nodes r) e])"
      using nx one False by (simp add: delete_loop_unf [OF lne] rec_of_def)
    have eA: "e \<notin> set (head # pre)" and er: "e \<notin> set rest" using d by auto
    have sk1: "seek_ok (hg (nodes r1)) (ln (nodes r1)) (height r1) (rev (head # pre)) seek"
    proof -
      have "seek_ok (hg (nodes r1)) (ln (nodes r1)) (height r) (rev (head # pre)) seek
          = seek_ok (hg (nodes r)) (ln (nodes r)) (height r) (rev (head # pre)) seek"
        by (rule seek_ok_cong) (use m1 eA hg1 in \<open>auto simp: ln_def\<close>)
      then show ?thesis using sko h1 by simp
    qed
    have same: "\<And>a. a \<in> set rest \<Longrightarrow> id_n (nodes r1 a) = id_n (nodes r a)
        \<and> dl (nodes r1 a) = dl (nodes r a)"
      using m1 er by metis
    have cut1: "cut (nodes r1) X rest = cut (nodes r) X rest"
      using same by (induction rest) auto
    have sub: "set (cut (nodes r) X rest) \<subseteq> set rest"
      by (induction rest) auto
    have rec1: "map (rec_of (nodes r1)) (cut (nodes r) X rest)
        = map (rec_of (nodes r)) (cut (nodes r) X rest)"
      by (rule map_cong) (use same sub in \<open>auto simp: rec_of_def\<close>)
    have ln1: "map (ln (nodes r1)) (cut (nodes r) X rest)
        = map (ln (nodes r)) (cut (nodes r) X rest)"
      by (rule map_cong) (use same sub in \<open>auto simp: ln_def\<close>)
    have id1: "(\<lambda>a. id_n (nodes r1 a)) ` set (cut (nodes r) X rest)
        = (\<lambda>a. id_n (nodes r a)) ` set (cut (nodes r) X rest)"
      by (rule image_cong) (use same sub in auto)
    from Cons.IH [OF inv1 sk1 Cons.prems(3), of "removed @ [rec_of (nodes r) e]"]
    obtain r' where
      run: "delete_loop r1 seek after X (removed @ [rec_of (nodes r) e])
              = Some ((removed @ [rec_of (nodes r) e])
                       @ map (rec_of (nodes r1)) (cut (nodes r1) X rest), r')"
      and inv': "rope_inv r' (pre @ drop (length (cut (nodes r1) X rest)) rest)"
      and h': "height r' = height r1"
      and len': "len r' = len r1 - sum_list (map (ln (nodes r1)) (cut (nodes r1) X rest))"
      and by': "\<forall>i. byId r' i = (if i \<in> (\<lambda>a. id_n (nodes r1 a)) ` set (cut (nodes r1) X rest)
                                then None else byId r1 i)"
      and m': "\<forall>a. a \<notin> set (cut (nodes r1) X rest) \<longrightarrow>
                  id_n (nodes r' a) = id_n (nodes r1 a) \<and> dl (nodes r' a) = dl (nodes r1 a)"
      and hg': "hg (nodes r') = hg (nodes r1)"
      by blast
    have "delete_loop r seek after X removed
        = Some (removed @ map (rec_of (nodes r)) (cut (nodes r) X (e # rest)), r')"
      using step run False by (simp add: cut1 rec1)
    moreover have "rope_inv r' (pre @ drop (length (cut (nodes r) X (e # rest))) (e # rest))"
      using inv' False by (simp add: cut1)
    moreover have "len r' = len r - sum_list (map (ln (nodes r)) (cut (nodes r) X (e # rest)))"
      using len' len1 False by (simp add: cut1 ln1)
    moreover have "\<forall>i. byId r' i = (if i \<in> (\<lambda>a. id_n (nodes r a)) ` set (cut (nodes r) X (e # rest))
                                then None else byId r i)"
      using by' by1 False by (auto simp: cut1 id1)
    moreover have "\<forall>a. a \<notin> set (cut (nodes r) X (e # rest)) \<longrightarrow>
                  id_n (nodes r' a) = id_n (nodes r a) \<and> dl (nodes r' a) = dl (nodes r a)"
      using m' m1 False by (simp add: cut1)
    ultimately show ?thesis using h' h1 hg' hg1 by simp
  qed
qed

lemma ins_old:
  assumes n: "i < hg ns n" and A2: "\<forall>x\<in>set A2. \<not> i < hg ns x"
    and ok: "lvl_ok ns i (A1 @ n # A2 @ post)"
  shows "fwdc (tall (hg ns) i) (ln ns) ns i (Some n) 0 A1"
    and "next_n (lv ns n i) = nextK (tall (hg ns) i) None post"
    and "subtreesize (lv ns n i)
           = ln ns n + (sum_list (map (ln ns) A2) + segK (tall (hg ns) i) (ln ns) 0 post)"
    and "fwdc (tall (hg ns) i) (ln ns) ns i None 0 post"
    and "bwdc (tall (hg ns) i) ns i head A1"
    and "prev_n (lv ns n i) = Some (prevK (tall (hg ns) i) head A1)"
    and "bwdc (tall (hg ns) i) ns i n post"
proof -
  let ?T = "tall (hg ns) i" and ?L = "ln ns"
  have Tn: "?T n" and TA2: "\<forall>x\<in>set A2. \<not> ?T x"
    using n A2 by (simp_all add: tall_def)
  from ok have F: "fwdc ?T ?L ns i None 0 (A1 @ n # A2 @ post)"
    and B: "bwdc ?T ns i head (A1 @ n # A2 @ post)"
    by (simp_all add: lvl_ok_chain)
  from F show "fwdc ?T ?L ns i (Some n) 0 A1"
    and "next_n (lv ns n i) = nextK ?T None post"
    and "subtreesize (lv ns n i) = ?L n + (sum_list (map ?L A2) + segK ?T ?L 0 post)"
    and "fwdc ?T ?L ns i None 0 post"
    unfolding fwdc_split3 [OF Tn TA2] by simp_all
  from B show "bwdc ?T ns i head A1"
    and "prev_n (lv ns n i) = Some (prevK ?T head A1)"
    and "bwdc ?T ns i n post"
    unfolding bwdc_split3 [OF Tn TA2] by simp_all
qed

text \<open>Linking the new node \<open>nn\<close> in at level \<open>i\<close>, no tall node after it.\<close>

lemma ins_step_link_None:
  assumes d: "distinct (A1 @ n # A2 @ nn # post)"
    and n: "i < hg ns n" and A2: "\<forall>x\<in>set A2. \<not> i < hg ns x" and nn: "i < hg ns nn"
    and ok: "lvl_ok ns i (A1 @ n # A2 @ post)"
    and st: "st = ln ns n + sum_list (map (ln ns) A2)"
    and nx: "next_n (lv ns n i) = None"
  shows "lvl_ok
           (upd_level
              (upd_level
                 (upd_level ns nn i
                    (\<lambda>_. \<lparr>next_n = None, prev_n = Some n,
                          subtreesize = ln ns nn + subtreesize (lv ns n i) - st\<rparr>))
                 n i (\<lambda>l. l\<lparr>next_n := Some nn\<rparr>))
              n i (\<lambda>l. l\<lparr>subtreesize := st\<rparr>))
           i (A1 @ n # A2 @ nn # post)"
proof -
  let ?T = "tall (hg ns) i" and ?L = "ln ns"
  let ?ns = "upd_level
              (upd_level
                 (upd_level ns nn i
                    (\<lambda>_. \<lparr>next_n = None, prev_n = Some n,
                          subtreesize = ln ns nn + subtreesize (lv ns n i) - st\<rparr>))
                 n i (\<lambda>l. l\<lparr>next_n := Some nn\<rparr>))
              n i (\<lambda>l. l\<lparr>subtreesize := st\<rparr>)"
  have Tn: "?T n" and TA2: "\<forall>x\<in>set A2. \<not> ?T x" and Tnn: "?T nn"
    using n A2 nn by (simp_all add: tall_def)
  note old = ins_old [OF n A2 ok]
  have "nextK ?T None post = None" using old(2) nx by simp
  then have sh: "\<forall>x\<in>set post. \<not> ?T x" by (rule nextK_None_short)
  have nA1: "n \<notin> set A1" and nnA1: "nn \<notin> set A1" and nnn: "nn \<noteq> n" using d by auto
  have F1': "fwdc ?T ?L ?ns i (Some n) 0 A1"
    using old(1) nA1 nnA1
    by (subst fwdc_cong [where T = ?T and L = ?L and ns = ns]) (auto simp: lv_upd_level)
  have B1': "bwdc ?T ?ns i head A1"
    using old(5) nnA1
    by (subst bwdc_cong [where T = ?T and ns = ns]) (auto simp: lv_upd_level)
  have "fwdc ?T ?L ?ns i None 0 (A1 @ n # A2 @ nn # post)"
    unfolding fwdc_split3 [OF Tn TA2]
    using F1' old(2,3) st n nn nnn Tnn sh
    by (simp add: lv_upd_level fwdc_short nextK_short segK_short)
  moreover have "bwdc ?T ?ns i head (A1 @ n # A2 @ nn # post)"
    unfolding bwdc_split3 [OF Tn TA2]
    using B1' old(6) n nn nnn Tnn sh by (simp add: lv_upd_level bwdc_short)
  ultimately show ?thesis by (simp add: lvl_ok_chain)
qed

text \<open>Linking the new node \<open>nn\<close> in at level \<open>i\<close>, \<open>nx\<close> the next tall node.\<close>

lemma ins_step_link_Some:
  assumes d: "distinct (A1 @ n # A2 @ nn # post)"
    and n: "i < hg ns n" and A2: "\<forall>x\<in>set A2. \<not> i < hg ns x" and nn: "i < hg ns nn"
    and ok: "lvl_ok ns i (A1 @ n # A2 @ post)"
    and st: "st = ln ns n + sum_list (map (ln ns) A2)"
    and nx: "next_n (lv ns n i) = Some nx"
  shows "i < hg ns nx"
    and "lvl_ok
           (upd_level
              (upd_level
                 (upd_level
                    (upd_level ns nx i (\<lambda>l. l\<lparr>prev_n := Some nn\<rparr>))
                    nn i
                    (\<lambda>_. \<lparr>next_n = Some nx, prev_n = Some n,
                          subtreesize = ln ns nn + subtreesize (lv ns n i) - st\<rparr>))
                 n i (\<lambda>l. l\<lparr>next_n := Some nn\<rparr>))
              n i (\<lambda>l. l\<lparr>subtreesize := st\<rparr>))
           i (A1 @ n # A2 @ nn # post)"
proof -
  let ?T = "tall (hg ns) i" and ?L = "ln ns"
  let ?ns = "upd_level
              (upd_level
                 (upd_level
                    (upd_level ns nx i (\<lambda>l. l\<lparr>prev_n := Some nn\<rparr>))
                    nn i
                    (\<lambda>_. \<lparr>next_n = Some nx, prev_n = Some n,
                          subtreesize = ln ns nn + subtreesize (lv ns n i) - st\<rparr>))
                 n i (\<lambda>l. l\<lparr>next_n := Some nn\<rparr>))
              n i (\<lambda>l. l\<lparr>subtreesize := st\<rparr>)"
  have Tn: "?T n" and TA2: "\<forall>x\<in>set A2. \<not> ?T x" and Tnn: "?T nn"
    using n A2 nn by (simp_all add: tall_def)
  note old = ins_old [OF n A2 ok]
  from old(2) nx have nk: "nextK ?T None post = Some nx" by simp
  from nextK_Some_split [OF this]
  obtain u v where uv: "post = u @ nx # v" "?T nx" "\<forall>x\<in>set u. \<not> ?T x" by blast
  show jnx: "i < hg ns nx" using uv(2) by (simp add: tall_def)
  have nA1: "n \<notin> set A1" and nnA1: "nn \<notin> set A1" and nnn: "nn \<noteq> n"
    and nxA1: "nx \<notin> set A1" and nxn: "nx \<noteq> n" and nxnn: "nx \<noteq> nn"
    and npost: "n \<notin> set post" and nnpost: "nn \<notin> set post"
    and nxv: "nx \<notin> set v" and nv: "n \<notin> set v" and nnv: "nn \<notin> set v"
    using d uv(1) by auto
  have F1': "fwdc ?T ?L ?ns i (Some n) 0 A1"
    using old(1) nA1 nnA1 nxA1
    by (subst fwdc_cong [where T = ?T and L = ?L and ns = ns]) (auto simp: lv_upd_level)
  have F4': "fwdc ?T ?L ?ns i None 0 post"
    using old(4) npost nnpost
    by (subst fwdc_cong [where T = ?T and L = ?L and ns = ns]) (auto simp: lv_upd_level)
  have B1': "bwdc ?T ?ns i head A1"
    using old(5) nnA1 nxA1
    by (subst bwdc_cong [where T = ?T and ns = ns]) (auto simp: lv_upd_level)
  from old(7) have Bv: "bwdc ?T ns i nx v"
    unfolding uv(1) bwdc_first [OF uv(2,3)] by simp
  have Bv': "bwdc ?T ?ns i nx v"
    using Bv nxv nv nnv
    by (subst bwdc_cong [where T = ?T and ns = ns]) (auto simp: lv_upd_level)
  have B3': "bwdc ?T ?ns i nn post"
    unfolding uv(1) bwdc_first [OF uv(2,3)] using Bv' jnx nxn nxnn by (simp add: lv_upd_level)
  have "fwdc ?T ?L ?ns i None 0 (A1 @ n # A2 @ nn # post)"
    unfolding fwdc_split3 [OF Tn TA2]
    using F1' F4' old(2,3) st n nn nnn nxn nxnn Tnn nk
    by (simp add: lv_upd_level)
  moreover have "bwdc ?T ?ns i head (A1 @ n # A2 @ nn # post)"
    unfolding bwdc_split3 [OF Tn TA2]
    using B1' B3' old(6) n nn nnn nxn nxnn Tnn by (simp add: lv_upd_level)
  ultimately show "lvl_ok ?ns i (A1 @ n # A2 @ nn # post)" by (simp add: lvl_ok_chain)
qed

text \<open>A level above the new node: only the length of the link that spans it grows.\<close>

lemma bump_step:
  assumes d: "distinct (A1 @ n # A2 @ nn # post)"
    and n: "i < hg ns n" and A2: "\<forall>x\<in>set A2. \<not> i < hg ns x" and nn: "\<not> i < hg ns nn"
    and ok: "lvl_ok ns i (A1 @ n # A2 @ post)"
  shows "lvl_ok (upd_level ns n i (\<lambda>l. l\<lparr>subtreesize := subtreesize l + ln ns nn\<rparr>))
           i (A1 @ n # A2 @ nn # post)"
proof -
  let ?T = "tall (hg ns) i" and ?L = "ln ns"
  let ?ns = "upd_level ns n i (\<lambda>l. l\<lparr>subtreesize := subtreesize l + ln ns nn\<rparr>)"
  have Tn: "?T n" and TA2: "\<forall>x\<in>set (A2 @ [nn]). \<not> ?T x"
    and TA2o: "\<forall>x\<in>set A2. \<not> ?T x"
    using n A2 nn by (simp_all add: tall_def)
  note old = ins_old [OF n A2 ok]
  have nA1: "n \<notin> set A1" and npost: "n \<notin> set post" using d by auto
  have F1': "fwdc ?T ?L ?ns i (Some n) 0 A1"
    using old(1) nA1
    by (subst fwdc_cong [where T = ?T and L = ?L and ns = ns]) (auto simp: lv_upd_level)
  have F4': "fwdc ?T ?L ?ns i None 0 post"
    using old(4) npost
    by (subst fwdc_cong [where T = ?T and L = ?L and ns = ns]) (auto simp: lv_upd_level)
  have B1': "bwdc ?T ?ns i head A1"
    using old(5) by (subst bwdc_cong [where T = ?T and ns = ns]) (auto simp: lv_upd_level)
  have B3': "bwdc ?T ?ns i n post"
    using old(7) by (subst bwdc_cong [where T = ?T and ns = ns]) (auto simp: lv_upd_level)
  have e: "A1 @ n # A2 @ nn # post = A1 @ n # (A2 @ [nn]) @ post" by simp
  have "fwdc ?T ?L ?ns i None 0 (A1 @ n # A2 @ nn # post)"
    unfolding e fwdc_split3 [OF Tn TA2]
    using F1' F4' old(2,3) n by (simp add: lv_upd_level algebra_simps)
  moreover have "bwdc ?T ?ns i head (A1 @ n # A2 @ nn # post)"
    unfolding e bwdc_split3 [OF Tn TA2] using B1' B3' old(6) n by (simp add: lv_upd_level)
  ultimately show ?thesis by (simp add: lvl_ok_chain)
qed

lemma lvl_prev:
  assumes ok: "lvl_ok ns k (pre @ a # post)" and ka: "k < hg ns a"
    and pre: "pre \<noteq> []" "hd pre = head" and kh: "k < hg ns head"
  shows "\<exists>B1 p B2. pre = B1 @ p # B2 \<and> tall (hg ns) k p \<and> (\<forall>b\<in>set B2. \<not> tall (hg ns) k b)
           \<and> prev_n (lv ns a k) = Some p"
proof -
  have th: "tall (hg ns) k head" using kh by (simp add: tall_def)
  have "head \<in> set (rev pre)" using pre by (cases pre) auto
  then have "find (tall (hg ns) k) (rev pre) \<noteq> None" using th by (auto simp: find_None_iff)
  then obtain p where p: "find (tall (hg ns) k) (rev pre) = Some p" by auto
  then obtain B1 B2 where B: "pre = B1 @ p # B2" "tall (hg ns) k p" "\<forall>b\<in>set B2. \<not> tall (hg ns) k b"
    unfolding find_rev_split by blast
  have "lv ns a k = canon (hg ns) (ln ns) k pre a post"
    using ok ka unfolding lvl_ok_def by blast
  then have "prev_n (lv ns a k) = Some p"
    using p by (simp add: canon_def prevAt_def)
  with B show ?thesis by blast
qed

lemma head_walk_correct:
  assumes "lvl_ok ns k (F1 @ c # rest)" and "distinct (F1 @ c # rest)"
    and "F1 \<noteq> [] \<longrightarrow> hd F1 = head" and "(c = head) = (F1 = [])"
    and "k < hg ns head" and "k < hg ns c"
  shows "head_walk ns k c cs = Some (head, cs + sum_list (map (ln ns) F1))"
  using assms
proof (induction "length F1" arbitrary: F1 c rest cs rule: less_induct)
  case less
  let ?H = "hg ns" and ?L = "ln ns"
  show ?case
  proof (cases "c = head")
    case True
    then have "F1 = []" using less.prems(4) by simp
    then show ?thesis using True by (subst head_walk.simps) simp
  next
    case False
    then have ne: "F1 \<noteq> []" and hd: "hd F1 = head" using less.prems(3,4) by auto
    from lvl_prev [OF less.prems(1) less.prems(6) ne hd less.prems(5)]
    obtain B1 p B2 where B: "F1 = B1 @ p # B2" "tall ?H k p" "\<forall>b\<in>set B2. \<not> tall ?H k b"
      and pv: "prev_n (lv ns c k) = Some p" by blast
    have kp: "k < ?H p" using B(2) by (simp add: tall_def)
    have ok': "lvl_ok ns k (B1 @ p # (B2 @ c # rest))" using less.prems(1) B(1) by simp
    have d': "distinct (B1 @ p # (B2 @ c # rest))" using less.prems(2) B(1) by simp
    have "lv ns p k = canon ?H ?L k B1 p (B2 @ c # rest)"
      using ok' kp unfolding lvl_ok_def by blast
    moreover have "takeWhile (\<lambda>b. \<not> tall ?H k b) (B2 @ c # rest) = B2"
      using takeWhile_split [of "tall ?H k" c B2 rest] B(3) less.prems(6) by (simp add: tall_def)
    ultimately have st: "subtreesize (lv ns p k) = ?L p + sum_list (map ?L B2)"
      by (simp add: canon_def seg_def)
    have step: "head_walk ns k c cs = head_walk ns k p (cs + subtreesize (lv ns p k))"
      using False less.prems(6) pv kp by (subst head_walk.simps) (auto simp: hg_def lv_def)
    have len: "length B1 < length F1" using B(1) by simp
    have h1: "B1 \<noteq> [] \<longrightarrow> hd B1 = head" using hd B(1) by (cases B1) auto
    have h2: "(p = head) = (B1 = [])"
    proof
      assume "p = head"
      show "B1 = []"
      proof (rule ccontr)
        assume "B1 \<noteq> []"
        then have "hd B1 = head" using h1 by simp
        then have "head \<in> set B1" using \<open>B1 \<noteq> []\<close> by (metis hd_in_set)
        then show False using d' \<open>p = head\<close> by auto
      qed
    next
      assume "B1 = []"
      then show "p = head" using hd B(1) by simp
    qed
    show ?thesis
      unfolding step less.hyps [OF len ok' d' h1 h2 less.prems(5) kp] st B(1) by simp
  qed
qed

text \<open>Growing the head by level \<open>i\<close>, which only the new node \<open>nn\<close> shares.\<close>

lemma grow_step:
  fixes ns :: "addr \<Rightarrow> ('id, 't) ropeNode"
  assumes d: "distinct (head # pre @ nn # post)"
    and hh: "hg ns head = i" and sh: "\<forall>a\<in>set (pre @ post). hg ns a \<le> i" and nn: "i < hg ns nn"
    and cs1: "cs1 = sum_list (map (ln ns) (head # pre))"
    and S: "S = ln ns nn + sum_list (map (ln ns) post)"
    and ns': "ns' = upd_level
               (ns(head := append_level (ns head)
                  \<lparr>next_n = Some nn, prev_n = Some head, subtreesize = cs1\<rparr>))
               nn i (\<lambda>_. \<lparr>next_n = None, prev_n = Some head, subtreesize = S\<rparr>)"
  shows "lvl_ok ns' i (head # pre @ nn # post)"
    and "hg ns' head = Suc i" and "\<forall>a. a \<noteq> head \<longrightarrow> hg ns' a = hg ns a"
    and "\<forall>a k. k < hg ns a \<longrightarrow> k \<noteq> i \<longrightarrow> lv ns' a k = lv ns a k"
    and "\<forall>a. id_n (ns' a) = id_n (ns a) \<and> dl (ns' a) = dl (ns a)"
proof -
  let ?T = "tall (hg ns') i" and ?L = "ln ns'"
  have hnn: "head \<noteq> nn" using d by auto
  show h1: "hg ns' head = Suc i"
    using hh by (simp add: ns' hg_def upd_level_def append_level_def)
  show h2: "\<forall>a. a \<noteq> head \<longrightarrow> hg ns' a = hg ns a"
    by (simp add: ns' hg_def upd_level_def)
  show "\<forall>a k. k < hg ns a \<longrightarrow> k \<noteq> i \<longrightarrow> lv ns' a k = lv ns a k"
    by (auto simp: ns' lv_def upd_level_def append_level_def hg_def nth_append)
  show meta: "\<forall>a. id_n (ns' a) = id_n (ns a) \<and> dl (ns' a) = dl (ns a)"
    by (simp add: ns' upd_level_def append_level_def)
  have L: "?L = ln ns" using meta by (auto simp: ln_def)
  have Th: "?T head" using h1 by (simp add: tall_def)
  have Tnn: "?T nn" using nn h2 hnn by (simp add: tall_def)
  have hpre: "head \<notin> set pre" and hpost: "head \<notin> set post" using d by auto
  have Tpre: "\<forall>x\<in>set pre. \<not> ?T x"
  proof
    fix x assume x: "x \<in> set pre"
    then have "x \<noteq> head" using hpre by auto
    then have "hg ns' x = hg ns x" using h2 by simp
    moreover have "hg ns x \<le> i" using sh x by simp
    ultimately show "\<not> ?T x" by (simp add: tall_def)
  qed
  have Tpost: "\<forall>x\<in>set post. \<not> ?T x"
  proof
    fix x assume x: "x \<in> set post"
    then have "x \<noteq> head" using hpost by auto
    then have "hg ns' x = hg ns x" using h2 by simp
    moreover have "hg ns x \<le> i" using sh x by simp
    ultimately show "\<not> ?T x" by (simp add: tall_def)
  qed
  have lvh: "lv ns' head i = \<lparr>next_n = Some nn, prev_n = Some head, subtreesize = cs1\<rparr>"
    using hh hnn by (simp add: ns' lv_def upd_level_def append_level_def hg_def nth_append)
  have lvn: "lv ns' nn i = \<lparr>next_n = None, prev_n = Some head, subtreesize = S\<rparr>"
    using nn hnn by (simp add: ns' lv_def upd_level_def hg_def)
  have "fwdc ?T ?L ns' i None 0 ([] @ head # pre @ (nn # post))"
    unfolding fwdc_split3 [OF Th Tpre]
    using lvh lvn Tnn Tpost cs1 S
    by (simp add: L fwdc_short nextK_short segK_short)
  then have "fwdc ?T ?L ns' i None 0 (head # pre @ nn # post)" by simp
  moreover have "bwdc ?T ns' i head ([] @ head # pre @ (nn # post))"
    unfolding bwdc_split3 [OF Th Tpre]
    using lvh lvn Tnn Tpost by (simp add: bwdc_short)
  then have "bwdc ?T ns' i head (head # pre @ nn # post)" by simp
  ultimately show "lvl_ok ns' i (head # pre @ nn # post)" by (simp add: lvl_ok_chain)
qed

text \<open>A level is as before when its own contents and the tall nodes are.\<close>

lemma lvl_ok_cong_lv:
  assumes "\<And>a. a \<in> set full \<Longrightarrow> (j < hg ns' a) = (j < hg ns a)"
    and "\<And>a. a \<in> set full \<Longrightarrow> ln ns' a = ln ns a"
    and "\<And>a. a \<in> set full \<Longrightarrow> j < hg ns a \<Longrightarrow> lv ns' a j = lv ns a j"
  shows "lvl_ok ns' j full = lvl_ok ns j full"
  unfolding lvl_ok_chain
  using fwdc_cong [of full "tall (hg ns') j" "tall (hg ns) j" "ln ns'" "ln ns" ns' j ns None 0]
    bwdc_cong [of full "tall (hg ns') j" "tall (hg ns) j" ns' j ns head] assms
  by (simp add: tall_def)

lemma ins_levels_done: "\<not> i < h \<Longrightarrow> ins_levels r seek nn h len_n cn cs i = Some (r, i)"
  by (subst ins_levels.simps) simp

lemma ins_levels_link_None:
  "i < h \<Longrightarrow> i < height r \<Longrightarrow> i < length seek \<Longrightarrow> node_s (seek ! i) = Some n \<Longrightarrow>
   i < hg (nodes r) n \<Longrightarrow> next_n (lv (nodes r) n i) = None \<Longrightarrow> i < hg (nodes r) nn \<Longrightarrow>
   ins_levels r seek nn h len_n cn cs i =
     ins_levels
       (r\<lparr>nodes := upd_level
            (upd_level
               (upd_level (nodes r) nn i
                  (\<lambda>_. \<lparr>next_n = None, prev_n = Some n,
                        subtreesize = len_n + subtreesize (lv (nodes r) n i) - sub (seek ! i)\<rparr>))
               n i (\<lambda>l. l\<lparr>next_n := Some nn\<rparr>))
            n i (\<lambda>l. l\<lparr>subtreesize := sub (seek ! i)\<rparr>)\<rparr>)
       seek nn h len_n cn cs (Suc i)"
  by (subst ins_levels.simps) (simp add: hg_def lv_def Let_def)

lemma ins_levels_link_Some:
  "i < h \<Longrightarrow> i < height r \<Longrightarrow> i < length seek \<Longrightarrow> node_s (seek ! i) = Some n \<Longrightarrow>
   i < hg (nodes r) n \<Longrightarrow> next_n (lv (nodes r) n i) = Some nx \<Longrightarrow> nx \<noteq> n \<Longrightarrow>
   i < hg (nodes r) nx \<Longrightarrow> i < hg (nodes r) nn \<Longrightarrow>
   ins_levels r seek nn h len_n cn cs i =
     ins_levels
       (r\<lparr>nodes := upd_level
            (upd_level
               (upd_level
                  (upd_level (nodes r) nx i (\<lambda>l. l\<lparr>prev_n := Some nn\<rparr>))
                  nn i
                  (\<lambda>_. \<lparr>next_n = Some nx, prev_n = Some n,
                        subtreesize = len_n + subtreesize (lv (nodes r) n i) - sub (seek ! i)\<rparr>))
               n i (\<lambda>l. l\<lparr>next_n := Some nn\<rparr>))
            n i (\<lambda>l. l\<lparr>subtreesize := sub (seek ! i)\<rparr>)\<rparr>)
       seek nn h len_n cn cs (Suc i)"
  by (subst ins_levels.simps) (simp add: hg_def lv_def Let_def upd_level_def)

lemma ins_levels_grow:
  "i < h \<Longrightarrow> \<not> i < height r \<Longrightarrow> cn = head \<or> 0 < hg (nodes r) cn \<Longrightarrow>
   head_walk (nodes r) (hg (nodes r) cn - 1) cn cs = Some (cn1, cs1) \<Longrightarrow>
   nn \<noteq> head \<Longrightarrow> i < hg (nodes r) nn \<Longrightarrow>
   ins_levels r seek nn h len_n cn cs i =
     ins_levels
       (r\<lparr>nodes := upd_level
            ((nodes r)(head := append_level (nodes r head)
               \<lparr>next_n = Some nn, prev_n = Some head, subtreesize = cs1\<rparr>))
            nn i (\<lambda>_. \<lparr>next_n = None, prev_n = Some head,
                       subtreesize = len r - cs1 + len_n\<rparr>),
          height := Suc (height r)\<rparr>)
       seek nn h len_n cn1 cs1 (Suc i)"
  by (subst ins_levels.simps) (auto simp: hg_def lv_def Let_def)

lemma ins_levels_correct:
  fixes r0 :: "('id, 't) ropeImpl"
  assumes d: "distinct (head # pre @ nn # post)"
    and hnn: "hg (nodes r0) nn = h" and lnn: "ln (nodes r0) nn = len_n"
    and sk: "seek_ok (hg (nodes r0)) (ln (nodes r0)) (height r0) (rev (head # pre)) seek"
    and hb: "\<forall>a\<in>set (pre @ post). hg (nodes r0) a \<le> height r0"
    and hh0: "hg (nodes r0) head = height r0" and h0: "1 \<le> height r0"
    and len0: "len r0 = sum_list (map (ln (nodes r0)) (head # pre @ post))"
    and "ins_inv r0 (head # pre) post nn i r"
    and "head # pre = F1 @ cn # F2"
    and "cs = ln (nodes r0) cn + sum_list (map (ln (nodes r0)) F2)"
    and "cn \<noteq> head \<longrightarrow> hg (nodes r0) cn = height r0 \<and> i \<le> height r0"
    and "i \<le> h"
  shows "\<exists>r'. ins_levels r seek nn h len_n cn cs i = Some (r', h)
           \<and> ins_inv r0 (head # pre) post nn h r'"
  using assms(9-)
proof (induction "h - i" arbitrary: r i cn cs F1 F2)
  case 0
  then have "i = h" by simp
  then show ?case using "0.prems"(1) by (simp add: ins_levels_done)
next
  case (Suc m)
  let ?A = "head # pre" and ?H0 = "hg (nodes r0)" and ?L0 = "ln (nodes r0)" and ?ns = "nodes r"
  note inv = Suc.prems(1) and cA = Suc.prems(2) and ccs = Suc.prems(3) and ch = Suc.prems(4)
  have i: "i < h" and m: "m = h - Suc i" and ih': "Suc i \<le> h" using Suc.hyps(2) by auto
  from inv have meta: "\<forall>a. id_n (?ns a) = id_n (nodes r0 a) \<and> dl (?ns a) = dl (nodes r0 a)"
    and hgo: "\<forall>a. a \<noteq> head \<longrightarrow> hg ?ns a = ?H0 a"
    and hgh: "hg ?ns head = height r" and hr: "height r = max (height r0) i"
    and fr: "len r = len r0" "byId r = byId r0" "nodePool r = nodePool r0"
      "nalloc r = nalloc r0" "lastId r = lastId r0"
    and lo: "\<forall>k<i. lvl_ok ?ns k (?A @ nn # post)"
    and hi: "\<forall>k. i \<le> k \<longrightarrow> k < height r0 \<longrightarrow> lvl_ok ?ns k (?A @ post)"
    unfolding ins_inv_def by blast+
  have L: "ln ?ns = ?L0" using meta by (auto simp: ln_def)
  have nnh: "nn \<noteq> head" using d by auto
  have hn: "hg ?ns nn = h" using hgo nnh hnn by simp
  show ?case
  proof (cases "i < height r")
    case True
    then have i0: "i < height r0" and hr0: "height r = height r0" using hr by auto
    have H: "hg ?ns = ?H0"
    proof
      fix a show "hg ?ns a = ?H0 a" using hgo hgh hr0 hh0 by (cases "a = head") auto
    qed
    from sk i0 obtain n where ls: "length seek = height r0"
      and fn: "find (tall ?H0 i) (rev ?A) = Some n"
      and sj: "seek ! i = \<lparr>node_s = Some n,
            sub = ?L0 n + sum_list (map ?L0 (takeWhile (\<lambda>b. \<not> tall ?H0 i b) (rev ?A)))\<rparr>"
      unfolding seek_ok_def seek_entry_def by auto
    from fn obtain A1 A2 where A: "?A = A1 @ n # A2" and Tn: "tall ?H0 i n"
      and TA2: "\<forall>x\<in>set A2. \<not> tall ?H0 i x"
      unfolding find_rev_split by blast
    have tw: "takeWhile (\<lambda>b. \<not> tall ?H0 i b) (rev ?A) = rev A2"
      unfolding A using Tn TA2 by (rule takeWhile_rev_split)
    have st: "sub (seek ! i) = ln ?ns n + sum_list (map (ln ?ns) A2)"
      unfolding sj tw L by (simp add: rev_map [symmetric])
    have n: "i < hg ?ns n" and A2: "\<forall>x\<in>set A2. \<not> i < hg ?ns x" and nn: "i < hg ?ns nn"
      using Tn TA2 H i hn by (simp_all add: tall_def)
    have d': "distinct (A1 @ n # A2 @ nn # post)" using d A by (metis append_Cons append_assoc)
    have ok: "lvl_ok ?ns i (A1 @ n # A2 @ post)"
      using hi i0 A by (metis append_Cons append_assoc le_refl)
    have eqA: "A1 @ n # A2 @ nn # post = ?A @ nn # post" using A by simp
    have nsj: "node_s (seek ! i) = Some n" using sj by simp
    have il: "i < length seek" using ls i0 by simp
    have fin: "\<And>ns1. same_meta ?ns ns1 \<Longrightarrow> lvl_ok ns1 i (?A @ nn # post) \<Longrightarrow>
      (\<And>k X. k \<noteq> i \<Longrightarrow> lvl_ok ns1 k X = lvl_ok ?ns k X) \<Longrightarrow>
      \<exists>r'. ins_levels (r\<lparr>nodes := ns1\<rparr>) seek nn h len_n cn cs (Suc i) = Some (r', h)
           \<and> ins_inv r0 ?A post nn h r'"
    proof -
      fix ns1 :: "addr \<Rightarrow> ('id, 't) ropeNode"
      assume sm: "same_meta ?ns ns1" and oki: "lvl_ok ns1 i (?A @ nn # post)"
        and oth: "\<And>k X. k \<noteq> i \<Longrightarrow> lvl_ok ns1 k X = lvl_ok ?ns k X"
      have "ins_inv r0 ?A post nn (Suc i) (r\<lparr>nodes := ns1\<rparr>)"
        unfolding ins_inv_def
        using sm meta hgo hgh hr fr lo hi oki oth i0 same_meta_hg [OF sm]
        by (auto simp: same_meta_def less_Suc_eq max_def)
      moreover have "cn \<noteq> head \<longrightarrow> ?H0 cn = height r0 \<and> Suc i \<le> height r0"
        using ch i0 by simp
      ultimately show "\<exists>r'. ins_levels (r\<lparr>nodes := ns1\<rparr>) seek nn h len_n cn cs (Suc i) = Some (r', h)
           \<and> ins_inv r0 ?A post nn h r'"
        using Suc.hyps(1) [OF m _ cA ccs _ ih'] by blast
    qed
    show ?thesis
    proof (cases "next_n (lv ?ns n i)")
      case None
      let ?ns1 = "upd_level
            (upd_level
               (upd_level ?ns nn i
                  (\<lambda>_. \<lparr>next_n = None, prev_n = Some n,
                        subtreesize = len_n + subtreesize (lv ?ns n i) - sub (seek ! i)\<rparr>))
               n i (\<lambda>l. l\<lparr>next_n := Some nn\<rparr>))
            n i (\<lambda>l. l\<lparr>subtreesize := sub (seek ! i)\<rparr>)"
      have lnn': "ln ?ns nn = len_n" using L lnn by simp
      have "lvl_ok ?ns1 i (?A @ nn # post)"
        using ins_step_link_None [OF d' n A2 nn ok st None] by (simp only: eqA lnn')
      from fin [OF _ this] have
        "\<exists>r'. ins_levels (r\<lparr>nodes := ?ns1\<rparr>) seek nn h len_n cn cs (Suc i) = Some (r', h)
           \<and> ins_inv r0 ?A post nn h r'"
        by (simp add: lvl_ok_upd_other same_meta_def)
      then show ?thesis
        unfolding ins_levels_link_None [OF i True il nsj n None nn] .
    next
      case (Some nx)
      let ?ns1 = "upd_level
            (upd_level
               (upd_level
                  (upd_level ?ns nx i (\<lambda>l. l\<lparr>prev_n := Some nn\<rparr>))
                  nn i
                  (\<lambda>_. \<lparr>next_n = Some nx, prev_n = Some n,
                        subtreesize = len_n + subtreesize (lv ?ns n i) - sub (seek ! i)\<rparr>))
               n i (\<lambda>l. l\<lparr>next_n := Some nn\<rparr>))
            n i (\<lambda>l. l\<lparr>subtreesize := sub (seek ! i)\<rparr>)"
      have lnn': "ln ?ns nn = len_n" using L lnn by simp
      note stp = ins_step_link_Some [OF d' n A2 nn ok st Some]
      have "nextK (tall (hg ?ns) i) None post = Some nx"
        using ins_old(2) [OF n A2 ok] Some by simp
      then have "nx \<in> set post" using nextK_Some_split by fastforce
      then have nxn: "nx \<noteq> n" using d' by auto
      have "lvl_ok ?ns1 i (?A @ nn # post)"
        using stp(2) by (simp only: eqA lnn')
      from fin [OF _ this] have
        "\<exists>r'. ins_levels (r\<lparr>nodes := ?ns1\<rparr>) seek nn h len_n cn cs (Suc i) = Some (r', h)
           \<and> ins_inv r0 ?A post nn h r'"
        by (simp add: lvl_ok_upd_other same_meta_def)
      then show ?thesis
        unfolding ins_levels_link_Some [OF i True il nsj n Some nxn stp(1) nn] .
    qed
  next
    case False
    then have i0: "height r0 \<le> i" and hri: "height r = i" using hr by auto
    have hgi: "hg ?ns head = i" using hgh hri by simp
    have ipos: "0 < i" using i0 h0 by simp
    have sumA: "sum_list (map ?L0 ?A) = sum_list (map ?L0 F1) + cs"
      unfolding cA ccs by simp
    have walk: "head_walk ?ns (hg ?ns cn - 1) cn cs = Some (head, sum_list (map ?L0 ?A))"
    proof (cases "cn = head")
      case True
      then have "F1 = []" using cA d by (cases F1) auto
      then show ?thesis using True sumA by (subst head_walk.simps) simp
    next
      case False
      then have tc: "?H0 cn = height r0" and ii: "i = height r0" using ch i0 by auto
      let ?k = "height r0 - 1"
      have hc: "hg ?ns cn = height r0" using hgo False tc by simp
      have ki: "?k < i" using ii h0 by simp
      have ok: "lvl_ok ?ns ?k (F1 @ cn # (F2 @ nn # post))"
        using lo ki cA by (metis append_Cons append_assoc)
      have dd: "distinct (F1 @ cn # (F2 @ nn # post))"
        using d cA by (metis append_Cons append_assoc)
      have f1: "F1 \<noteq> [] \<longrightarrow> hd F1 = head" using cA by (cases F1) auto
      have f2: "(cn = head) = (F1 = [])" using cA False by (cases F1) auto
      have "head_walk ?ns ?k cn cs = Some (head, cs + sum_list (map (ln ?ns) F1))"
        by (rule head_walk_correct [OF ok dd f1 f2]) (use hgi ki hc h0 in auto)
      then show ?thesis using hc sumA L by (simp add: add.commute)
    qed
    have c0: "cn = head \<or> 0 < hg ?ns cn"
      using ch hgo h0 by (cases "cn = head") auto
    have nn: "i < hg ?ns nn" using hn i by simp
    let ?cs1 = "sum_list (map ?L0 ?A)"
    let ?ns1 = "upd_level
            (?ns(head := append_level (?ns head)
               \<lparr>next_n = Some nn, prev_n = Some head, subtreesize = ?cs1\<rparr>))
            nn i (\<lambda>_. \<lparr>next_n = None, prev_n = Some head,
                       subtreesize = len r - ?cs1 + len_n\<rparr>)"
    have sh: "\<forall>a\<in>set (pre @ post). hg ?ns a \<le> i"
    proof
      fix a assume a: "a \<in> set (pre @ post)"
      then have "a \<noteq> head" using d by auto
      then show "hg ?ns a \<le> i" using hgo hb a i0 by (metis le_trans)
    qed
    have S: "len r - ?cs1 + len_n = ln ?ns nn + sum_list (map (ln ?ns) post)"
      using fr(1) len0 L lnn by simp
    have c1: "?cs1 = sum_list (map (ln ?ns) ?A)" using L by simp
    note g = grow_step [OF d hgi sh nn c1 S refl]
    let ?r1 = "r\<lparr>nodes := ?ns1, height := Suc (height r)\<rparr>"
    have lo1: "\<forall>k<Suc i. lvl_ok ?ns1 k (?A @ nn # post)"
    proof (intro allI impI)
      fix k assume k: "k < Suc i"
      show "lvl_ok ?ns1 k (?A @ nn # post)"
      proof (cases "k = i")
        case True then show ?thesis using g(1) by simp
      next
        case False
        then have ki: "k < i" using k by simp
        have "lvl_ok ?ns1 k (?A @ nn # post) = lvl_ok ?ns k (?A @ nn # post)"
        proof (rule lvl_ok_cong_lv)
          fix a assume "a \<in> set (?A @ nn # post)"
          show "(k < hg ?ns1 a) = (k < hg ?ns a)"
            using g(2,3) hgi ki by (cases "a = head") auto
          show "ln ?ns1 a = ln ?ns a" using g(5) by (simp add: ln_def)
          show "k < hg ?ns a \<Longrightarrow> lv ?ns1 a k = lv ?ns a k" using g(4) False by simp
        qed
        then show ?thesis using lo ki by simp
      qed
    qed
    have "ins_inv r0 ?A post nn (Suc i) ?r1"
      unfolding ins_inv_def
      using meta hgo fr lo1 i0 hri g(2,3,5) by (auto simp: max_def)
    moreover have "?A = [] @ head # pre" by simp
    moreover have "?cs1 = ?L0 head + sum_list (map ?L0 pre)" by simp
    ultimately have
      "\<exists>r'. ins_levels ?r1 seek nn h len_n head ?cs1 (Suc i) = Some (r', h)
           \<and> ins_inv r0 ?A post nn h r'"
      using Suc.hyps(1) [OF m, of ?r1 "[]" head pre ?cs1] ih' by blast
    then show ?thesis
      unfolding ins_levels_grow [OF i False c0 walk nnh nn] .
  qed
qed

lemma bump_levels_unf:
  "bump_levels ns seek len_n i =
     (if i < length seek then
        (case node_s (seek ! i) of
           None \<Rightarrow> None
         | Some n \<Rightarrow>
             if hg ns n \<le> i then None
             else bump_levels
                    (upd_level ns n i (\<lambda>l. l\<lparr>subtreesize := subtreesize l + len_n\<rparr>))
                    seek len_n (Suc i))
      else Some ns)"
  by (subst bump_levels.simps) (simp add: hg_def split: option.splits)

lemma bump_levels_correct:
  fixes ns :: "addr \<Rightarrow> ('id, 't) ropeNode"
  assumes "distinct (A @ nn # post)"
    and "seek_ok (hg ns) (ln ns) hgt0 (rev A) seek"
    and "hg ns nn \<le> i" and "ln ns nn = len_n"
    and "\<forall>k<i. lvl_ok ns k (A @ nn # post)"
    and "\<forall>k. i \<le> k \<longrightarrow> k < hgt0 \<longrightarrow> lvl_ok ns k (A @ post)"
  shows "\<exists>ns'. bump_levels ns seek len_n i = Some ns' \<and> same_meta ns ns'
           \<and> (\<forall>k. k < i \<or> k < hgt0 \<longrightarrow> lvl_ok ns' k (A @ nn # post))"
  using assms
proof (induction "hgt0 - i" arbitrary: ns i)
  case 0
  then have "\<not> i < length seek" by (simp add: seek_ok_def)
  moreover have "\<forall>k. k < i \<or> k < hgt0 \<longrightarrow> lvl_ok ns k (A @ nn # post)"
    using "0.prems"(5) "0.hyps" by auto
  ultimately show ?case by (subst bump_levels_unf) simp
next
  case (Suc m)
  then have i: "i < hgt0" and m: "m = hgt0 - Suc i" by auto
  note d = Suc.prems(1) and sk = Suc.prems(2) and hn = Suc.prems(3) and ll = Suc.prems(4)
    and lo = Suc.prems(5) and hi = Suc.prems(6)
  from sk i obtain n where ls: "length seek = hgt0"
    and fn: "find (tall (hg ns) i) (rev A) = Some n"
    and sj: "node_s (seek ! i) = Some n"
    unfolding seek_ok_def seek_entry_def by auto
  from fn obtain A1 A2 where A: "A = A1 @ n # A2" and Tn: "tall (hg ns) i n"
    and TA2: "\<forall>x\<in>set A2. \<not> tall (hg ns) i x"
    unfolding find_rev_split by blast
  have n: "i < hg ns n" and A2: "\<forall>x\<in>set A2. \<not> i < hg ns x" and nn: "\<not> i < hg ns nn"
    using Tn TA2 hn by (simp_all add: tall_def)
  have d': "distinct (A1 @ n # A2 @ nn # post)" using d A by simp
  have ok: "lvl_ok ns i (A1 @ n # A2 @ post)" using hi i A by simp
  let ?ns1 = "upd_level ns n i (\<lambda>l. l\<lparr>subtreesize := subtreesize l + len_n\<rparr>)"
  have oki: "lvl_ok ?ns1 i (A @ nn # post)"
    using bump_step [OF d' n A2 nn ok] A ll by simp
  have sk1: "seek_ok (hg ?ns1) (ln ?ns1) hgt0 (rev A) seek" using sk by simp
  have lo1: "\<forall>k<Suc i. lvl_ok ?ns1 k (A @ nn # post)"
    using lo oki by (auto simp: less_Suc_eq lvl_ok_upd_other)
  have hi1: "\<forall>k. Suc i \<le> k \<longrightarrow> k < hgt0 \<longrightarrow> lvl_ok ?ns1 k (A @ post)"
    using hi by (auto simp: lvl_ok_upd_other)
  have hn1: "hg ?ns1 nn \<le> Suc i" using hn by simp
  have ll1: "ln ?ns1 nn = len_n" using ll by simp
  from Suc.hyps(1) [OF m d sk1 hn1 ll1 lo1 hi1]
  obtain ns' where r: "bump_levels ?ns1 seek len_n (Suc i) = Some ns'" and sm: "same_meta ?ns1 ns'"
    and al: "\<forall>k. k < Suc i \<or> k < hgt0 \<longrightarrow> lvl_ok ns' k (A @ nn # post)" by blast
  have sm0: "same_meta ns ?ns1" by simp
  have sm': "same_meta ns ns'" using same_meta_trans [OF sm0 sm] .
  have al': "\<forall>k. k < i \<or> k < hgt0 \<longrightarrow> lvl_ok ns' k (A @ nn # post)"
    using al by (simp add: less_Suc_eq)
  have "bump_levels ns seek len_n i = bump_levels ?ns1 seek len_n (Suc i)"
    using i ls sj n by (subst bump_levels_unf) simp
  then show ?case using r sm' al' by simp
qed

lemma new_node_correct:
  fixes r :: "('id::zero, 't) ropeImpl"
  assumes inv: "rope_inv r xs" and h: "1 \<le> h"
  shows "\<exists>nn r1. new_node r h insertId len_n data = (nn, r1)
     \<and> nn \<notin> set (head # xs) \<and> nn \<notin> set (nodePool r1) \<and> nn < nalloc r1
     \<and> hg (nodes r1) nn = h \<and> id_n (nodes r1 nn) = insertId
     \<and> dl (nodes r1 nn) = \<lparr>Len = len_n, Data = data\<rparr>
     \<and> (\<forall>a. a \<noteq> nn \<longrightarrow> nodes r1 a = nodes r a)
     \<and> distinct (nodePool r1) \<and> set (nodePool r1) \<subseteq> set (nodePool r)
     \<and> nalloc r \<le> nalloc r1
     \<and> len r1 = len r \<and> byId r1 = byId r \<and> height r1 = height r \<and> lastId r1 = lastId r"
proof -
  from inv have pd: "distinct (nodePool r)" and pi: "set (nodePool r) \<inter> set (head # xs) = {}"
    and al: "\<forall>a\<in>set (head # xs) \<union> set (nodePool r). a < nalloc r"
    by (simp_all add: rope_inv_def)
  show ?thesis
  proof (cases "nodePool r = []")
    case True
    have "nalloc r \<notin> set (head # xs)" using al by auto
    then show ?thesis using True al by (simp add: new_node_def hg_def)
  next
    case False
    then obtain ps p where ps: "nodePool r = ps @ [p]" by (metis rev_exhaust)
    have idx: "length (nodePool r) - 1 = length ps" "nodePool r ! length ps = p"
      "take (length ps) (nodePool r) = ps"
      using ps by simp_all
    have "p \<notin> set (head # xs)" using pi ps by auto
    moreover have "p \<notin> set ps" and "distinct ps" using pd ps by auto
    moreover have "p < nalloc r" using al ps by auto
    ultimately show ?thesis
      using False ps h
      by (simp add: new_node_def Let_def idx hg_def del: One_nat_def) auto
  qed
qed

lemma insert_phase_correct:
  fixes r :: "('id::zero, 't) ropeImpl"
  assumes inv: "rope_inv r (pre @ post)"
    and sk: "seek_ok (hg (nodes r)) (ln (nodes r)) (height r) (rev (head # pre)) seek"
    and cA: "head # pre = F1 @ cn # F2"
    and ccs: "cs = ln (nodes r) cn + sum_list (map (ln (nodes r)) F2)"
    and ch: "cn \<noteq> head \<longrightarrow> hg (nodes r) cn = height r"
    and fresh: "byId r insertId = None" and h: "1 \<le> h" "h \<le> maxHeight"
    and aft: "after \<in> set (head # pre)"
  shows "\<exists>r' nn. insert_phase r seek cn cs after h insertId len_n data = Some r'
      \<and> rope_inv r' (pre @ nn # post) \<and> nn \<notin> set (head # pre @ post)
      \<and> id_n (nodes r' nn) = insertId \<and> dl (nodes r' nn) = \<lparr>Len = len_n, Data = data\<rparr>
      \<and> len r' = len r + len_n \<and> byId r' = (byId r)(insertId \<mapsto> nn)
      \<and> (\<forall>a. a \<noteq> nn \<longrightarrow> id_n (nodes r' a) = id_n (nodes r a) \<and> dl (nodes r' a) = dl (nodes r a))
      \<and> lastId r' = (if after = head then (if len r + len_n = len_n then insertId else lastId r)
                      else if lastId r = id_n (nodes r after) then insertId else lastId r)"
proof -
  let ?A = "head # pre"
  from new_node_correct [OF inv h(1), of insertId len_n data]
  obtain nn r1 where nw: "new_node r h insertId len_n data = (nn, r1)"
    and nnf: "nn \<notin> set (head # pre @ post)" and nnp: "nn \<notin> set (nodePool r1)"
    and nna: "nn < nalloc r1"
    and hnn1: "hg (nodes r1) nn = h" and idn1: "id_n (nodes r1 nn) = insertId"
    and dln1: "dl (nodes r1 nn) = \<lparr>Len = len_n, Data = data\<rparr>"
    and same1: "\<forall>a. a \<noteq> nn \<longrightarrow> nodes r1 a = nodes r a"
    and pd1: "distinct (nodePool r1)" and ps1: "set (nodePool r1) \<subseteq> set (nodePool r)"
    and na1: "nalloc r \<le> nalloc r1"
    and fr1: "len r1 = len r" "byId r1 = byId r" "height r1 = height r" "lastId r1 = lastId r"
    by blast
  define r0 where "r0 = r1\<lparr>byId := (byId r1)(insertId \<mapsto> nn)\<rparr>"
  let ?hgt0 = "height r0"
  have n0: "nodes r0 = nodes r1" and h0e: "height r0 = height r" and len0e: "len r0 = len r"
    using fr1 by (simp_all add: r0_def)
  from inv have skl: "skel (nodes r) (height r) (?A @ post)"
    and hm: "height r \<le> maxHeight"
    and idh: "id_n (nodes r head) = 0" and lnh: "ln (nodes r) head = 0"
    and idx: "\<forall>i a. byId r i = Some a \<longleftrightarrow> a \<in> set (?A @ post) \<and> id_n (nodes r a) = i"
    and ln: "len r = sum_list (map (ln (nodes r)) (?A @ post))"
    and pi: "set (nodePool r) \<inter> set (?A @ post) = {}"
    and al: "\<forall>a\<in>set (?A @ post) \<union> set (nodePool r). a < nalloc r"
    by (simp_all add: rope_inv_def)
  from skl have d0: "distinct (?A @ post)" and lok: "\<forall>j. lvl_ok (nodes r) j (?A @ post)"
    and hh: "hg (nodes r) head = height r" and h1: "1 \<le> height r"
    and hb0: "\<forall>a\<in>set (?A @ post). 1 \<le> hg (nodes r) a \<and> hg (nodes r) a \<le> height r"
    unfolding skel_def by auto
  have same0: "\<And>a. a \<in> set (?A @ post) \<Longrightarrow> nodes r0 a = nodes r a"
    using same1 nnf n0 by auto
  have hg0: "\<And>a. a \<in> set (?A @ post) \<Longrightarrow> hg (nodes r0) a = hg (nodes r) a"
    using same0 by (simp add: hg_def)
  have ln0: "\<And>a. a \<in> set (?A @ post) \<Longrightarrow> ln (nodes r0) a = ln (nodes r) a"
    using same0 by (simp add: ln_def)
  have d: "distinct (head # pre @ nn # post)" using d0 nnf by auto
  have hnn: "hg (nodes r0) nn = h" using hnn1 n0 by simp
  have lnn: "ln (nodes r0) nn = len_n" using dln1 n0 by (simp add: ln_def)
  have sk0: "seek_ok (hg (nodes r0)) (ln (nodes r0)) ?hgt0 (rev ?A) seek"
  proof -
    have "seek_ok (hg (nodes r0)) (ln (nodes r0)) (height r) (rev ?A) seek
        = seek_ok (hg (nodes r)) (ln (nodes r)) (height r) (rev ?A) seek"
      by (rule seek_ok_cong) (use hg0 ln0 in auto)
    then show ?thesis using sk h0e by simp
  qed
  have hb: "\<forall>a\<in>set (pre @ post). hg (nodes r0) a \<le> ?hgt0"
    using hb0 hg0 h0e by auto
  have hh0: "hg (nodes r0) head = ?hgt0" using hh hg0 [of head] h0e by simp
  have h0: "1 \<le> ?hgt0" using h1 h0e by simp
  have len0: "len r0 = sum_list (map (ln (nodes r0)) (head # pre @ post))"
  proof -
    have "map (ln (nodes r0)) (?A @ post) = map (ln (nodes r)) (?A @ post)"
      by (rule map_cong) (use ln0 in auto)
    then have "sum_list (map (ln (nodes r0)) (?A @ post)) = len r" using ln by (simp only:)
    then show ?thesis using len0e by (simp only: append_Cons)
  qed
  have lok0: "\<forall>k. lvl_ok (nodes r0) k (?A @ post)"
  proof
    fix k
    have "lvl_ok (nodes r0) k (?A @ post) = lvl_ok (nodes r) k (?A @ post)"
      by (rule lvl_ok_cong) (use same0 in auto)
    then show "lvl_ok (nodes r0) k (?A @ post)" using lok by simp
  qed
  have ii: "ins_inv r0 ?A post nn 0 r0"
    unfolding ins_inv_def using hh0 lok0 by simp
  have cnA: "cn \<in> set (?A @ post)" and F2A: "set F2 \<subseteq> set (?A @ post)"
    using cA by (metis in_set_conv_decomp set_append Un_iff, metis set_append Un_upper2 set_subset_Cons  subset_trans Un_upper1)
  have ccs0: "cs = ln (nodes r0) cn + sum_list (map (ln (nodes r0)) F2)"
  proof -
    have "map (ln (nodes r0)) F2 = map (ln (nodes r)) F2"
      by (rule map_cong) (use ln0 F2A in auto)
    then show ?thesis using ccs ln0 [OF cnA] by (simp only:)
  qed
  have ch0: "cn \<noteq> head \<longrightarrow> hg (nodes r0) cn = ?hgt0 \<and> 0 \<le> ?hgt0"
    using ch hg0 [OF cnA] h0e by simp
  from ins_levels_correct [OF d hnn lnn sk0 hb hh0 h0 len0 ii cA ccs0 ch0]
  obtain r3 where run3: "ins_levels r0 seek nn h len_n cn cs 0 = Some (r3, h)"
    and i3: "ins_inv r0 ?A post nn h r3" by auto
  from i3 have meta3: "\<forall>a. id_n (nodes r3 a) = id_n (nodes r0 a) \<and> dl (nodes r3 a) = dl (nodes r0 a)"
    and hgo3: "\<forall>a. a \<noteq> head \<longrightarrow> hg (nodes r3) a = hg (nodes r0) a"
    and hgh3: "hg (nodes r3) head = height r3" and hr3: "height r3 = max ?hgt0 h"
    and fr3: "len r3 = len r0" "byId r3 = byId r0" "nodePool r3 = nodePool r0"
      "nalloc r3 = nalloc r0" "lastId r3 = lastId r0"
    and lo3: "\<forall>k<h. lvl_ok (nodes r3) k (?A @ nn # post)"
    and hi3: "\<forall>k. h \<le> k \<longrightarrow> k < ?hgt0 \<longrightarrow> lvl_ok (nodes r3) k (?A @ post)"
    unfolding ins_inv_def by blast+
  have L3: "ln (nodes r3) = ln (nodes r0)" using meta3 by (auto simp: ln_def)
  have "\<exists>ns4. bump_levels (nodes r3) seek len_n h = Some ns4 \<and> same_meta (nodes r3) ns4
      \<and> (\<forall>k<height r3. lvl_ok ns4 k (?A @ nn # post))"
  proof (cases "h < ?hgt0")
    case True
    then have "height r3 = ?hgt0" using hr3 by simp
    then have H3: "hg (nodes r3) = hg (nodes r0)"
      using hgo3 hgh3 hh0 by (intro ext) (metis)
    have sk3: "seek_ok (hg (nodes r3)) (ln (nodes r3)) ?hgt0 (rev ?A) seek"
      using sk0 H3 L3 by simp
    have d3: "distinct (?A @ nn # post)" using d by simp
    have hn3: "hg (nodes r3) nn \<le> h" using H3 hnn by simp
    have ln3: "ln (nodes r3) nn = len_n" using L3 lnn by simp
    from bump_levels_correct [OF d3 sk3 hn3 ln3 lo3 hi3]
    show ?thesis using \<open>height r3 = ?hgt0\<close> by auto
  next
    case False
    then have "\<not> h < length seek" using sk0 by (simp add: seek_ok_def)
    then have "bump_levels (nodes r3) seek len_n h = Some (nodes r3)"
      by (subst bump_levels_unf) simp
    moreover have "height r3 = h" using hr3 False by simp
    ultimately show ?thesis using lo3 by simp
  qed
  then obtain ns4 where run4: "bump_levels (nodes r3) seek len_n h = Some ns4"
    and sm4: "same_meta (nodes r3) ns4"
    and ok4: "\<forall>k<height r3. lvl_ok ns4 k (?A @ nn # post)" by blast
  have hg4: "hg ns4 = hg (nodes r3)" using same_meta_hg [OF sm4] .
  have meta4: "\<forall>a. id_n (ns4 a) = id_n (nodes r0 a) \<and> dl (ns4 a) = dl (nodes r0 a)"
    using sm4 meta3 by (simp add: same_meta_def)
  define r5 where "r5 = r3\<lparr>nodes := ns4, len := len r3 + len_n\<rparr>"
  define r' where "r' = (if after = head
                     then (if len r5 = len_n then r5\<lparr>lastId := insertId\<rparr> else r5)
                     else if lastId r5 = id_n (nodes r5 after) then r5\<lparr>lastId := insertId\<rparr>
                     else r5)"
  have run: "insert_phase r seek cn cs after h insertId len_n data = Some r'"
    unfolding insert_phase_def nw
    by (simp add: r0_def [symmetric] run3 run4 Let_def r5_def [symmetric] r'_def)
  have nnh: "nn \<noteq> head" using nnf by auto
  have hb4: "\<forall>a\<in>set (?A @ nn # post). 1 \<le> hg ns4 a \<and> hg ns4 a \<le> height r3"
  proof
    fix a assume a: "a \<in> set (?A @ nn # post)"
    show "1 \<le> hg ns4 a \<and> hg ns4 a \<le> height r3"
    proof (cases "a = head")
      case True then show ?thesis using hg4 hgh3 hr3 h0 by simp
    next
      case False
      show ?thesis
      proof (cases "a = nn")
        case True then show ?thesis using hg4 hgo3 nnh hnn h hr3 by simp
      next
        case nf: False
        then have ain: "a \<in> set (?A @ post)" using a by auto
        then have "hg ns4 a = hg (nodes r) a" using hg4 hgo3 False hg0 by simp
        moreover have "1 \<le> hg (nodes r) a \<and> hg (nodes r) a \<le> height r"
          using hb0 ain by blast
        ultimately show ?thesis using hr3 h0e by (auto simp: max_def)
      qed
    qed
  qed
  have ok4': "\<forall>j. lvl_ok ns4 j (?A @ nn # post)"
  proof
    fix j show "lvl_ok ns4 j (?A @ nn # post)"
    proof (cases "j < height r3")
      case True then show ?thesis using ok4 by simp
    next
      case False
      then have "\<forall>a\<in>set (?A @ nn # post). hg ns4 a \<le> j" using hb4 by (meson le_trans not_less)
      then show ?thesis by (rule lvl_ok_vacuous)
    qed
  qed
  have skel5: "skel (nodes r5) (height r5) (head # pre @ nn # post)"
    unfolding skel_def
    using ok4' d hb4 hg4 hgh3 hr3 h0 by (simp add: r5_def)
  have id5: "\<And>a. a \<noteq> nn \<Longrightarrow> id_n (nodes r5 a) = id_n (nodes r a) \<and> dl (nodes r5 a) = dl (nodes r a)"
    using meta4 same1 n0 by (simp add: r5_def)
  have idn5: "id_n (nodes r5 nn) = insertId" "dl (nodes r5 nn) = \<lparr>Len = len_n, Data = data\<rparr>"
    using meta4 n0 idn1 dln1 by (simp_all add: r5_def)
  have by5: "byId r5 = (byId r)(insertId \<mapsto> nn)" using fr3 fr1 by (simp add: r5_def r0_def)
  have idx5: "\<forall>i a. byId r5 i = Some a \<longleftrightarrow> a \<in> set (head # pre @ nn # post) \<and> id_n (nodes r5 a) = i"
  proof (intro allI)
    fix i a
    show "byId r5 i = Some a \<longleftrightarrow> a \<in> set (head # pre @ nn # post) \<and> id_n (nodes r5 a) = i"
    proof (cases "a = nn")
      case True
      have "byId r i \<noteq> Some nn" using idx nnf by auto
      then show ?thesis using True by5 idn5 by auto
    next
      case False
      have "a \<in> set (?A @ post) \<and> id_n (nodes r a) = insertId \<longrightarrow> False"
        using idx fresh by (metis option.distinct(1))
      then show ?thesis using False by5 id5 [OF False] idx by auto
    qed
  qed
  have len5: "len r5 = sum_list (map (ln (nodes r5)) (head # pre @ nn # post))"
  proof -
    have "\<And>a. a \<in> set (?A @ post) \<Longrightarrow> ln (nodes r5) a = ln (nodes r) a"
    proof -
      fix a assume "a \<in> set (?A @ post)"
      then have "a \<noteq> nn" using nnf by auto
      then show "ln (nodes r5) a = ln (nodes r) a" using id5 by (simp add: ln_def)
    qed
    then have "map (ln (nodes r5)) (?A @ post) = map (ln (nodes r)) (?A @ post)"
      by (intro map_cong) auto
    then have "sum_list (map (ln (nodes r5)) (?A @ post)) = len r" using ln by (simp only:)
    then have e: "sum_list (map (ln (nodes r5)) ?A) + sum_list (map (ln (nodes r5)) post) = len r"
      by (simp add: add.assoc)
    have n: "ln (nodes r5) nn = len_n" using idn5 by (simp add: ln_def)
    have "len r5 = len r + len_n" using fr3 len0e by (simp add: r5_def)
    also have "\<dots> = sum_list (map (ln (nodes r5)) ?A)
        + (len_n + sum_list (map (ln (nodes r5)) post))"
      unfolding e [symmetric] by (simp add: ac_simps)
    also have "\<dots> = sum_list (map (ln (nodes r5)) (head # pre @ nn # post))"
      using n by (simp add: ac_simps)
    finally show ?thesis .
  qed
  have pool5: "distinct (nodePool r5) \<and> set (nodePool r5) \<inter> set (head # pre @ nn # post) = {}
      \<and> (\<forall>a\<in>set (head # pre @ nn # post) \<union> set (nodePool r5). a < nalloc r5)"
  proof -
    have b: "\<And>a. a \<in> set (?A @ post) \<union> set (nodePool r) \<Longrightarrow> a < nalloc r1"
      using al na1 by (meson less_le_trans)
    have "\<forall>a\<in>set (head # pre @ nn # post) \<union> set (nodePool r1). a < nalloc r1"
      using b nna ps1 by auto
    moreover have "set (nodePool r1) \<inter> set (head # pre @ nn # post) = {}"
      using ps1 pi nnp by auto
    ultimately show ?thesis using fr3 pd1 by (simp add: r5_def r0_def)
  qed
  have hm5: "height r5 \<le> maxHeight" using hr3 hm h0e h by (simp add: r5_def)
  have hd5: "id_n (nodes r5 head) = 0 \<and> ln (nodes r5) head = 0"
    using id5 [of head] nnh idh lnh by (simp add: ln_def)
  have inv5: "rope_inv r5 (pre @ nn # post)"
    unfolding rope_inv_def using skel5 hm5 hd5 idx5 len5 pool5 by simp
  have inv': "rope_inv r' (pre @ nn # post)" using inv5 by (simp add: r'_def)
  have nodes': "nodes r' = nodes r5" "len r' = len r5" "byId r' = byId r5"
    by (simp_all add: r'_def)
  have an: "after \<noteq> nn" using aft nnf by auto
  have last': "lastId r' = (if after = head then (if len r + len_n = len_n then insertId else lastId r)
                      else if lastId r = id_n (nodes r after) then insertId else lastId r)"
    using id5 [OF an] fr3 fr1 len0e by (simp add: r'_def r5_def r0_def)
  show ?thesis
    using run inv' nnf idn5 id5 by5 last' fr3 len0e
    by (intro exI [of _ r'] exI [of _ nn]) (simp add: nodes' r5_def)
qed

lemma seek_initial:
  fixes r :: "('id::zero, 't) ropeImpl"
  assumes inv: "rope_inv r (pre @ rest)"
  shows "\<exists>seek cn cs F1 F2.
      seek_loop (nodes r) (height r) (replicate (height r) zeroSeek)
        (last (head # pre)) (Len (dl (nodes r (last (head # pre))))) 0 = Some (seek, cn, cs)
      \<and> seek_ok (hg (nodes r)) (ln (nodes r)) (height r) (rev (head # pre)) seek
      \<and> head # pre = F1 @ cn # F2
      \<and> cs = ln (nodes r) cn + sum_list (map (ln (nodes r)) F2)
      \<and> (cn \<noteq> head \<longrightarrow> hg (nodes r) cn = height r)"
proof -
  obtain A1 c where A: "head # pre = A1 @ [c]" by (metis rev_exhaust list.discI)
  have c: "last (head # pre) = c" by (simp add: A)
  have "(head # pre) @ rest = (A1 @ [c]) @ rest" by (simp only: A)
  then have e: "head # pre @ rest = A1 @ c # [] @ rest" by simp
  have sk: "skel (nodes r) (height r) (A1 @ c # [] @ rest)"
    using inv unfolding rope_inv_def e by blast
  have "\<exists>seek' cf csf F1 F2.
           seek_loop (nodes r) (height r) (replicate (height r) zeroSeek) c (ln (nodes r) c) 0
             = Some (seek', cf, csf) \<and>
           seek_ok (hg (nodes r)) (ln (nodes r)) (height r) (rev (A1 @ c # [])) seek' \<and>
           A1 @ c # [] = F1 @ cf # F2 \<and>
           csf = ln (nodes r) cf + sum_list (map (ln (nodes r)) F2) \<and>
           (cf \<noteq> head \<longrightarrow> hg (nodes r) cf = height r)"
    by (rule seek_loop_correct [OF sk]) simp_all
  then show ?thesis unfolding c A by (simp add: ln_def)
qed

lemma cut_subset: "set (cut ns X rest) \<subseteq> set rest"
  by (induction rest) auto

lemma cut_take: "cut ns X rest = take (length (cut ns X rest)) rest"
  by (induction rest) auto

lemma splice_correct_dl:
  fixes r :: "('id::zero, 't::zero) ropeImpl"
  assumes inv: "rope_inv r (pre @ rest)" and aft: "after = last (head # pre)"
    and h: "1 \<le> h" "h \<le> maxHeight"
    and fresh: "doInsert \<longrightarrow> byId r insertId = None"
  shows "\<exists>r' xs'.
      splice r h after doDelete deleteUntil doInsert insertId len_n data
        = Some (if doDelete then map (rec_of (nodes r)) (cut (nodes r) deleteUntil rest) else [], r')
      \<and> rope_inv r' xs'
      \<and> (\<not> doDelete \<longrightarrow> \<not> doInsert \<longrightarrow> r' = r)
      \<and> (doDelete \<longrightarrow> \<not> doInsert \<longrightarrow>
            len r' = len r - sum_list (map (ln (nodes r)) (cut (nodes r) deleteUntil rest))
            \<and> (\<forall>i. byId r' i = (if i \<in> (\<lambda>a. id_n (nodes r a)) ` set (cut (nodes r) deleteUntil rest)
                                then None else byId r i)))
      \<and> (\<forall>a\<in>set xs'. a \<in> set (pre @ rest) \<and> dl (nodes r' a) = dl (nodes r a)
              \<or> doInsert \<and> dl (nodes r' a) = \<lparr>Len = len_n, Data = data\<rparr>)"
proof -
  let ?A = "head # pre"
  from seek_initial [OF inv]
  obtain seek cn cs F1 F2 where
    sl: "seek_loop (nodes r) (height r) (replicate (height r) zeroSeek)
        after (Len (dl (nodes r after))) 0 = Some (seek, cn, cs)"
    and sk: "seek_ok (hg (nodes r)) (ln (nodes r)) (height r) (rev ?A) seek"
    and cA: "?A = F1 @ cn # F2"
    and ccs: "cs = ln (nodes r) cn + sum_list (map (ln (nodes r)) F2)"
    and ch: "cn \<noteq> head \<longrightarrow> hg (nodes r) cn = height r"
    unfolding aft by blast
  have hm: "\<not> maxHeight < height r" using inv by (simp add: rope_inv_def)
  have ain: "after \<in> set ?A" unfolding aft by (metis last_in_set list.discI)
  let ?cut = "cut (nodes r) deleteUntil rest"
  have "\<exists>r1. (if doDelete then delete_phase r seek after deleteUntil else Some ([], r))
      = Some (if doDelete then map (rec_of (nodes r)) ?cut else [], r1)
    \<and> rope_inv r1 (pre @ (if doDelete then drop (length ?cut) rest else rest))
    \<and> height r1 = height r \<and> hg (nodes r1) = hg (nodes r)
    \<and> (\<forall>a. a \<in> set ?A \<longrightarrow> id_n (nodes r1 a) = id_n (nodes r a) \<and> dl (nodes r1 a) = dl (nodes r a))
    \<and> (doInsert \<longrightarrow> byId r1 insertId = None)
    \<and> (\<not> doDelete \<longrightarrow> r1 = r)
    \<and> (doDelete \<longrightarrow> len r1 = len r - sum_list (map (ln (nodes r)) ?cut)
          \<and> (\<forall>i. byId r1 i = (if i \<in> (\<lambda>a. id_n (nodes r a)) ` set ?cut then None else byId r i)))
    \<and> (\<forall>a\<in>set (if doDelete then drop (length ?cut) rest else rest).
          dl (nodes r1 a) = dl (nodes r a))"
  proof (cases doDelete)
    case False
    then show ?thesis using inv fresh by simp
  next
    case True
    from delete_loop_correct [OF inv sk aft, of deleteUntil "[]"]
    obtain r1 where dlp: "delete_loop r seek after deleteUntil []
              = Some ([] @ map (rec_of (nodes r)) ?cut, r1)"
      and inv1: "rope_inv r1 (pre @ drop (length ?cut) rest)"
      and h1: "height r1 = height r"
      and len1: "len r1 = len r - sum_list (map (ln (nodes r)) ?cut)"
      and by1: "\<forall>i. byId r1 i = (if i \<in> (\<lambda>a. id_n (nodes r a)) ` set ?cut then None else byId r i)"
      and m1: "\<forall>a. a \<notin> set ?cut \<longrightarrow>
                  id_n (nodes r1 a) = id_n (nodes r a) \<and> dl (nodes r1 a) = dl (nodes r a)"
      and hg1: "hg (nodes r1) = hg (nodes r)"
      by blast
    define r2 where "r2 = (if byId r1 (lastId r1) = None
        then r1\<lparr>lastId := id_n (nodes r1 after)\<rparr> else r1)"
    have run: "delete_phase r seek after deleteUntil = Some (map (rec_of (nodes r)) ?cut, r2)"
      using dlp by (simp add: delete_phase_def r2_def)
    have d: "distinct (?A @ rest)" using inv by (simp add: rope_inv_def skel_def)
    have "\<And>a. a \<in> set ?A \<Longrightarrow> a \<notin> set ?cut"
      using d cut_subset [of "nodes r" deleteUntil rest] by auto
    then have mA: "\<forall>a. a \<in> set ?A \<longrightarrow> id_n (nodes r1 a) = id_n (nodes r a) \<and> dl (nodes r1 a) = dl (nodes r a)"
      using m1 by blast
    have f1: "doInsert \<longrightarrow> byId r1 insertId = None" using by1 fresh by simp
    have "rope_inv r2 (pre @ drop (length ?cut) rest) \<and> height r2 = height r
        \<and> hg (nodes r2) = hg (nodes r) \<and> nodes r2 = nodes r1 \<and> byId r2 = byId r1 \<and> len r2 = len r1"
      using inv1 h1 hg1 by (simp add: r2_def)
    moreover have "\<forall>a\<in>set (drop (length ?cut) rest). dl (nodes r1 a) = dl (nodes r a)"
    proof
      fix a assume a: "a \<in> set (drop (length ?cut) rest)"
      have "distinct rest" using d by simp
      then have "set (take (length ?cut) rest) \<inter> set (drop (length ?cut) rest) = {}"
        by (rule set_take_disj_set_drop_if_distinct) simp
      then have "a \<notin> set (take (length ?cut) rest)" using a by blast
      then have "a \<notin> set ?cut" using cut_take [of "nodes r" deleteUntil rest] by simp
      then show "dl (nodes r1 a) = dl (nodes r a)" using m1 by blast
    qed
    ultimately show ?thesis using True run mA f1 len1 by1 by auto
  qed
  then obtain r1 where
    dp: "(if doDelete then delete_phase r seek after deleteUntil else Some ([], r))
      = Some (if doDelete then map (rec_of (nodes r)) ?cut else [], r1)"
    and inv1: "rope_inv r1 (pre @ (if doDelete then drop (length ?cut) rest else rest))"
    and h1: "height r1 = height r" and hg1: "hg (nodes r1) = hg (nodes r)"
    and mA: "\<forall>a. a \<in> set ?A \<longrightarrow> id_n (nodes r1 a) = id_n (nodes r a) \<and> dl (nodes r1 a) = dl (nodes r a)"
    and f1: "doInsert \<longrightarrow> byId r1 insertId = None"
    and nd: "\<not> doDelete \<longrightarrow> r1 = r"
    and dd: "doDelete \<longrightarrow> len r1 = len r - sum_list (map (ln (nodes r)) ?cut)
          \<and> (\<forall>i. byId r1 i = (if i \<in> (\<lambda>a. id_n (nodes r a)) ` set ?cut then None else byId r i))"
    and mD: "\<forall>a\<in>set (if doDelete then drop (length ?cut) rest else rest).
          dl (nodes r1 a) = dl (nodes r a)"
    by blast
  let ?R = "if doDelete then drop (length ?cut) rest else rest"
  have RR: "set ?R \<subseteq> set rest" by (auto dest: in_set_dropD)
  have old: "\<forall>a\<in>set (pre @ ?R). a \<in> set (pre @ rest) \<and> dl (nodes r1 a) = dl (nodes r a)"
  proof
    fix a assume "a \<in> set (pre @ ?R)"
    then have "a \<in> set pre \<or> a \<in> set ?R" by simp
    then show "a \<in> set (pre @ rest) \<and> dl (nodes r1 a) = dl (nodes r a)"
      using mA mD RR by auto
  qed
  show ?thesis
  proof (cases doInsert)
    case False
    have "splice r h after doDelete deleteUntil doInsert insertId len_n data
        = Some (if doDelete then map (rec_of (nodes r)) ?cut else [], r1)"
      unfolding splice_def using hm sl dp False by simp
    then show ?thesis using inv1 nd dd False old
      by (intro exI [of _ r1] exI [of _ "pre @ ?R"]) simp
  next
    case True
    have lnA: "\<And>a. a \<in> set ?A \<Longrightarrow> ln (nodes r1) a = ln (nodes r) a"
    proof -
      fix a assume "a \<in> set ?A"
      then have "dl (nodes r1 a) = dl (nodes r a)" using mA by blast
      then show "ln (nodes r1) a = ln (nodes r) a" by (simp add: ln_def)
    qed
    have sk1: "seek_ok (hg (nodes r1)) (ln (nodes r1)) (height r1) (rev ?A) seek"
    proof -
      have "seek_ok (hg (nodes r1)) (ln (nodes r1)) (height r) (rev ?A) seek
          = seek_ok (hg (nodes r)) (ln (nodes r)) (height r) (rev ?A) seek"
        by (rule seek_ok_cong) (use lnA hg1 in auto)
      then show ?thesis using sk h1 by simp
    qed
    have cnA: "cn \<in> set ?A" and F2A: "set F2 \<subseteq> set ?A"
      unfolding cA by auto
    have ccs1: "cs = ln (nodes r1) cn + sum_list (map (ln (nodes r1)) F2)"
    proof -
      have "map (ln (nodes r1)) F2 = map (ln (nodes r)) F2"
        by (rule map_cong) (use lnA F2A in auto)
      then show ?thesis using ccs lnA [OF cnA] by (simp only:)
    qed
    have ch1: "cn \<noteq> head \<longrightarrow> hg (nodes r1) cn = height r1" using ch hg1 h1 by simp
    have fr: "byId r1 insertId = None" using f1 True by simp
    from insert_phase_correct [OF inv1 sk1 cA ccs1 ch1 fr h ain, of len_n data]
    obtain r' nn where ip: "insert_phase r1 seek cn cs after h insertId len_n data = Some r'"
      and inv': "rope_inv r' (pre @ nn # ?R)"
      and dnn: "dl (nodes r' nn) = \<lparr>Len = len_n, Data = data\<rparr>"
      and same: "\<forall>a. a \<noteq> nn \<longrightarrow>
          id_n (nodes r' a) = id_n (nodes r1 a) \<and> dl (nodes r' a) = dl (nodes r1 a)"
      by blast
    have run: "splice r h after doDelete deleteUntil doInsert insertId len_n data
        = Some (if doDelete then map (rec_of (nodes r)) ?cut else [], r')"
      unfolding splice_def using hm sl dp True ip by simp
    have new: "\<forall>a\<in>set (pre @ nn # ?R). a \<in> set (pre @ rest) \<and> dl (nodes r' a) = dl (nodes r a)
              \<or> doInsert \<and> dl (nodes r' a) = \<lparr>Len = len_n, Data = data\<rparr>"
    proof
      fix a assume a: "a \<in> set (pre @ nn # ?R)"
      show "a \<in> set (pre @ rest) \<and> dl (nodes r' a) = dl (nodes r a)
              \<or> doInsert \<and> dl (nodes r' a) = \<lparr>Len = len_n, Data = data\<rparr>"
      proof (cases "a = nn")
        case True
        then show ?thesis using dnn \<open>doInsert\<close> by simp
      next
        case False
        then have "a \<in> set (pre @ ?R)" using a by auto
        then have "a \<in> set (pre @ rest) \<and> dl (nodes r1 a) = dl (nodes r a)" using old by blast
        then show ?thesis using same False by simp
      qed
    qed
    show ?thesis using run inv' new True
      by (intro exI [of _ r'] exI [of _ "pre @ nn # ?R"]) simp
  qed
qed

lemma splice_correct:
  fixes r :: "('id::zero, 't::zero) ropeImpl"
  assumes inv: "rope_inv r (pre @ rest)" and aft: "after = last (head # pre)"
    and h: "1 \<le> h" "h \<le> maxHeight"
    and fresh: "doInsert \<longrightarrow> byId r insertId = None"
  shows "\<exists>r' xs'.
      splice r h after doDelete deleteUntil doInsert insertId len_n data
        = Some (if doDelete then map (rec_of (nodes r)) (cut (nodes r) deleteUntil rest) else [], r')
      \<and> rope_inv r' xs'
      \<and> (\<not> doDelete \<longrightarrow> \<not> doInsert \<longrightarrow> r' = r)
      \<and> (doDelete \<longrightarrow> \<not> doInsert \<longrightarrow>
            len r' = len r - sum_list (map (ln (nodes r)) (cut (nodes r) deleteUntil rest))
            \<and> (\<forall>i. byId r' i = (if i \<in> (\<lambda>a. id_n (nodes r a)) ` set (cut (nodes r) deleteUntil rest)
                                then None else byId r i)))"
  using splice_correct_dl [OF assms] by blast

lemma randomHeight_bounds: "1 \<le> randomHeight rnd \<and> randomHeight rnd \<le> maxHeight"
  by (simp add: randomHeight_def Let_def maxHeight_def)

lemma rope_inv_NewRoot: "rope_inv (NewRoot root :: ('id::zero, 't::zero) ropeImpl) []"
proof -
  let ?r = "NewRoot root :: ('id, 't) ropeImpl"
  have hgh: "hg (nodes ?r) head = 1" by (simp add: NewRoot_def hg_def)
  have "\<And>j. lvl_ok (nodes ?r) j [head]"
  proof -
    fix j
    show "lvl_ok (nodes ?r) j [head]"
      unfolding lvl_ok_chain
      by (auto simp: tall_def hgh) (simp_all add: NewRoot_def lv_def ln_def)
  qed
  then have "skel (nodes ?r) (height ?r) [head]"
    unfolding skel_def using hgh by (simp add: NewRoot_def)
  then show ?thesis
    unfolding rope_inv_def
    by (auto simp: NewRoot_def ln_def maxHeight_def head_def)
qed

lemma rope_inv_cong:
  assumes "\<And>a. id_n (nodes r' a) = id_n (nodes r a) \<and> dl (nodes r' a) = dl (nodes r a)
             \<and> levels (nodes r' a) = levels (nodes r a)"
    and "height r' = height r" "len r' = len r" "byId r' = byId r"
    and "nodePool r' = nodePool r" "nalloc r' = nalloc r"
  shows "rope_inv r' xs = rope_inv r xs"
proof -
  have hg: "hg (nodes r') = hg (nodes r)" using assms(1) by (auto simp: hg_def)
  have ln: "ln (nodes r') = ln (nodes r)" using assms(1) by (auto simp: ln_def)
  have "\<And>j. lvl_ok (nodes r') j (head # xs) = lvl_ok (nodes r) j (head # xs)"
    by (rule lvl_ok_cong) (use assms(1) in auto)
  then show ?thesis
    unfolding rope_inv_def skel_def hg ln using assms by simp
qed

lemma anchor_split:
  assumes "a \<in> set (head # xs)"
  shows "\<exists>pre rest. xs = pre @ rest \<and> a = last (head # pre)"
proof -
  from assms obtain ys zs where s: "head # xs = ys @ a # zs" by (meson split_list)
  show ?thesis
  proof (cases ys)
    case Nil
    with s have "xs = [] @ zs \<and> a = last (head # [])" by simp
    then show ?thesis by blast
  next
    case (Cons y ys')
    with s have "xs = (ys' @ [a]) @ zs \<and> a = last (head # (ys' @ [a]))" by simp
    then show ?thesis by blast
  qed
qed

lemma rope_inv_index:
  "rope_inv r xs \<Longrightarrow> byId r i = Some a \<longleftrightarrow> a \<in> set (head # xs) \<and> id_n (nodes r a) = i"
  unfolding rope_inv_def by blast

lemma rope_inv_zero: "rope_inv r xs \<Longrightarrow> byId r 0 = Some head"
  using rope_inv_index [of r xs 0 head] by (simp add: rope_inv_def)

lemma Splice_ok_cases:
  fixes r :: "('id::zero, 't::zero) ropeImpl"
  assumes inv: "rope_inv r xs"
  shows "\<exists>r1 rem err. Splice sizer rnd r afterId deleteUntilId insertId data = Some ((rem, err), r1)
           \<and> (\<exists>xs'. rope_inv r1 xs')"
proof (cases "byId r afterId")
  case None
  then have "afterId \<noteq> 0" using rope_inv_zero [OF inv] by auto
  then show ?thesis using None inv by (auto simp: Splice_def)
next
  case (Some a)
  then have "a \<in> set (head # xs)" using rope_inv_index [OF inv] by blast
  from anchor_split [OF this] obtain pre rest where
    xs: "xs = pre @ rest" and a: "a = last (head # pre)" by blast
  have inv': "rope_inv r (pre @ rest)" using inv xs by simp
  note h = randomHeight_bounds [of rnd]
  show ?thesis
  proof (cases insertId)
    case None
    from splice_correct [OF inv' a, of "randomHeight rnd" False 0
        "case deleteUntilId of None \<Rightarrow> False | Some d \<Rightarrow> d \<noteq> afterId"
        "case deleteUntilId of None \<Rightarrow> 0 | Some d \<Rightarrow> if d \<noteq> afterId then d else 0" 0 data] h
    show ?thesis using Some None inv by (auto simp: Splice_def Let_def)
  next
    case (Some iid)
    note ins = this
    show ?thesis
    proof (cases "byId r iid \<noteq> None
        \<or> word_sless (case sizer of None \<Rightarrow> 0 | Some f \<Rightarrow> f data) 0")
      case True
      then show ?thesis using \<open>byId r afterId = Some a\<close> ins inv
        by (auto simp: Splice_def Let_def)
    next
      case False
      from splice_correct [OF inv' a, of "randomHeight rnd" True iid
        "case deleteUntilId of None \<Rightarrow> False | Some d \<Rightarrow> d \<noteq> afterId"
        "case deleteUntilId of None \<Rightarrow> 0 | Some d \<Rightarrow> if d \<noteq> afterId then d else 0"
        "case sizer of None \<Rightarrow> 0 | Some f \<Rightarrow> f data" data] h False
      show ?thesis using \<open>byId r afterId = Some a\<close> ins
        by (auto simp: Splice_def Let_def)
    qed
  qed
qed

lemma reach_inv: "reach r \<Longrightarrow> \<exists>xs. rope_inv r xs"
proof (induction rule: reach.induct)
  case (reach_NewRoot root)
  show ?case using rope_inv_NewRoot by blast
next
  case (reach_Splice r sizer rnd afterId deleteUntilId insertId data res r1)
  then obtain xs where "rope_inv r xs" by blast
  from Splice_ok_cases [OF this, of sizer rnd afterId deleteUntilId insertId data]
  show ?case using reach_Splice.hyps(2) by auto
next
  case (reach_attach r e)
  then obtain xs where inv: "rope_inv r xs" by blast
  have "rope_inv (iter_attach e r) xs = rope_inv r xs"
    by (rule rope_inv_cong) (simp_all add: iter_attach_def)
  then show ?case using inv by blast
next
  case (reach_detach r e update r1)
  then obtain xs where inv: "rope_inv r xs" by blast
  have "rope_inv r1 xs = rope_inv r xs"
    by (rule rope_inv_cong)
      (use reach_detach.hyps(2) in \<open>auto simp: iter_detach_def split: option.splits\<close>)
  then show ?case using inv by blast
qed

lemma Splice_total:
  "reach r \<Longrightarrow> \<exists>res r1. Splice sizer rnd r afterId deleteUntilId insertId data = Some (res, r1)"
  using reach_inv [of r] Splice_ok_cases [of r _ sizer rnd afterId deleteUntilId insertId data]
  by blast

lemma reach_Splice_the:
  "reach r \<Longrightarrow> reach (snd (the (Splice sizer rnd r afterId deleteUntilId insertId data)))"
  using Splice_total [of r sizer rnd afterId deleteUntilId insertId data]
    reach_Splice [of r sizer rnd afterId deleteUntilId insertId data]
  by force

subsection \<open>Walking back: \<open>rseekNodes\<close> and \<open>Compare\<close>\<close>


lemma rseek_fill_spec:
  "i < hgt \<Longrightarrow> ll \<le> hgt \<Longrightarrow> hgt \<le> length target \<Longrightarrow>
     \<exists>t'. rseek_fill target cur hgt i ll = Some (t', max i ll, ll = hgt)
       \<and> length t' = length target
       \<and> (\<forall>j<length target. t' ! j = (if i \<le> j \<and> j < ll then Some cur else target ! j))"
proof (induction target cur hgt i ll rule: rseek_fill.induct)
  case (1 target cur hgt i ll)
  show ?case
  proof (cases "i < ll")
    case False
    then show ?thesis using "1.prems" by (subst rseek_fill.simps) (auto simp: max_def)
  next
    case True
    have il: "\<not> length target \<le> i" using "1.prems" by simp
    show ?thesis
    proof (cases "Suc i = hgt")
      case s: True
      then have "ll = hgt" using True "1.prems" by simp
      then show ?thesis using True il s
        by (subst rseek_fill.simps) (auto simp: max_def nth_list_update)
    next
      case s: False
      then have a: "Suc i < hgt" using "1.prems" by simp
      have b: "hgt \<le> length (target[i := Some cur])" using "1.prems" by simp
      from "1.IH" [OF True il s a "1.prems"(2) b]
      obtain t' where t: "rseek_fill (target[i := Some cur]) cur hgt (Suc i) ll
            = Some (t', max (Suc i) ll, ll = hgt)"
        "length t' = length target"
        "\<forall>j<length target. t' ! j
            = (if Suc i \<le> j \<and> j < ll then Some cur else target[i := Some cur] ! j)"
        by auto
      have "rseek_fill target cur hgt i ll = Some (t', max i ll, ll = hgt)"
        using True il s t(1) by (subst rseek_fill.simps) (simp add: max_def)
      moreover have "\<forall>j<length target. t' ! j = (if i \<le> j \<and> j < ll then Some cur else target ! j)"
        using t(3) True il by (auto simp: nth_list_update)
      ultimately show ?thesis using t(2) by blast
    qed
  qed
qed

lemma rseek_loop_correct:
  assumes "skel ns hgt (A1 @ c # A2 @ post)"
    and "\<forall>b\<in>set A2. hg ns b \<le> i" and "i \<le> hg ns c" and "i < hgt"
    and "hgt \<le> length target"
    and "\<forall>j<i. target ! j = find (tall (hg ns) j) (rev (A1 @ c # A2))"
  shows "\<exists>t'. rseek_loop ns hgt c target i = Some t' \<and> length t' = length target
           \<and> (\<forall>j<hgt. t' ! j = find (tall (hg ns) j) (rev (A1 @ c # A2)))"
  using assms
proof (induction "length A1" arbitrary: A1 c A2 i target rule: less_induct)
  case less
  let ?H = "hg ns"
  note sk = less.prems(1)
  have hc: "1 \<le> ?H c" "?H c \<le> hgt" using skel_hg [OF sk, of c] by auto
  have hh: "?H head = hgt" using sk unfolding skel_def by blast
  from rseek_fill_spec [OF less.prems(4) hc(2) less.prems(5), of c]
  obtain t1 where f: "rseek_fill target c hgt i (?H c) = Some (t1, max i (?H c), ?H c = hgt)"
    and l1: "length t1 = length target"
    and e1: "\<forall>j<length target. t1 ! j = (if i \<le> j \<and> j < ?H c then Some c else target ! j)"
    by blast
  have mx: "max i (?H c) = ?H c" using less.prems(3) by simp
  have filled: "\<forall>j<?H c. t1 ! j = find (tall ?H j) (rev (A1 @ c # A2))"
  proof (intro allI impI)
    fix j assume j: "j < ?H c"
    then have jl: "j < length target" using hc less.prems(5) by simp
    show "t1 ! j = find (tall ?H j) (rev (A1 @ c # A2))"
    proof (cases "j < i")
      case True
      then show ?thesis using e1 jl less.prems(6) by simp
    next
      case False
      then have s: "t1 ! j = Some c" using e1 j jl by simp
      have "tall ?H j c" using j by (simp add: tall_def)
      moreover have "\<forall>b\<in>set A2. \<not> tall ?H j b" using less.prems(2) False by (auto simp: tall_def)
      ultimately have "find (tall ?H j) (rev (A1 @ c # A2)) = Some c"
        unfolding find_rev_split by blast
      then show ?thesis using s by simp
    qed
  qed
  show ?case
  proof (cases "?H c = hgt")
    case True
    have "rseek_loop ns hgt c target i = Some t1"
      using f True by (subst rseek_loop.simps) (simp add: hg_def)
    then show ?thesis using l1 filled True by simp
  next
    case False
    then have nh: "c \<noteq> head" using hh by auto
    have lt: "?H c < hgt" using False hc by simp
    let ?k = "?H c - 1"
    have k: "?k < ?H c" using hc by simp
    from skel_prev [OF sk nh k]
    obtain B1 p B2 where B: "A1 = B1 @ p # B2" "tall ?H ?k p" "\<forall>b\<in>set B2. \<not> tall ?H ?k b"
      and pv: "prev_n (lv ns c ?k) = Some p" by blast
    have kp: "?k < ?H p" using B(2) by (simp add: tall_def)
    have sk': "skel ns hgt (B1 @ p # (B2 @ c # A2) @ post)" using sk B(1) by simp
    have lne: "levels (ns c) \<noteq> []" using hc by (auto simp: hg_def)
    have step: "rseek_loop ns hgt c target i = rseek_loop ns hgt p t1 (?H c)"
      using f False mx lne pv by (subst rseek_loop.simps) (simp add: hg_def lv_def)
    have len: "length B1 < length A1" using B(1) by simp
    have c2: "\<forall>b\<in>set (B2 @ c # A2). ?H b \<le> ?H c"
      using B(3) less.prems(2,3) by (auto simp: tall_def)
    have c3: "?H c \<le> ?H p" using kp by simp
    have c5: "hgt \<le> length t1" using l1 less.prems(5) by simp
    have eqA: "B1 @ p # B2 @ c # A2 = A1 @ c # A2" using B(1) by simp
    have c6: "\<forall>j<?H c. t1 ! j = find (tall ?H j) (rev (B1 @ p # B2 @ c # A2))"
      unfolding eqA using filled .
    from less.hyps [OF len sk' c2 c3 lt c5 c6]
    show ?thesis unfolding step eqA l1 .
  qed
qed

lemma rseekNodes_correct:
  fixes r :: "('id::zero, 't) ropeImpl"
  assumes inv: "rope_inv r xs" and s: "head # xs = P @ x # Q"
  shows "\<exists>t. rseekNodes r x = Some t \<and> length t = maxHeight
           \<and> (\<forall>j<height r. t ! j = find (tall (hg (nodes r)) j) (rev (P @ [x])))"
proof -
  have sk: "skel (nodes r) (height r) (P @ x # [] @ Q)" using inv s by (simp add: rope_inv_def)
  have h: "0 < height r" "height r \<le> maxHeight" using inv by (auto simp: rope_inv_def skel_def)
  from rseek_loop_correct [OF sk, of 0 "replicate maxHeight None"] h
  show ?thesis by (simp add: rseekNodes_def)
qed


lemma cmp_scan_none:
  "ll \<le> length anodes \<Longrightarrow> \<forall>j. i \<le> j \<and> j < ll \<longrightarrow> anodes ! j \<noteq> Some cur \<Longrightarrow>
     cmp_scan anodes cur i ll = Some (False, max i ll)"
proof (induction anodes cur i ll rule: cmp_scan.induct)
  case (1 anodes cur i ll)
  show ?case
  proof (cases "i < ll")
    case False
    then show ?thesis by (subst cmp_scan.simps) (simp add: max_def)
  next
    case True
    have a: "\<not> length anodes \<le> i" using True "1.prems"(1) by simp
    have b: "anodes ! i \<noteq> Some cur" using True "1.prems"(2) by simp
    have c: "\<forall>j. Suc i \<le> j \<and> j < ll \<longrightarrow> anodes ! j \<noteq> Some cur" using "1.prems"(2) by simp
    from "1.IH" [OF True a b "1.prems"(1) c]
    show ?thesis using True a b by (subst cmp_scan.simps) (simp add: max_def)
  qed
qed

lemma cmp_scan_total:
  "ll \<le> length anodes \<Longrightarrow> \<exists>f i1. cmp_scan anodes cur i ll = Some (f, i1)"
proof (induction anodes cur i ll rule: cmp_scan.induct)
  case (1 anodes cur i ll)
  show ?case
  proof (cases "i < ll")
    case False
    then have "cmp_scan anodes cur i ll = Some (False, i)" by (subst cmp_scan.simps) simp
    then show ?thesis by blast
  next
    case True
    have a: "\<not> length anodes \<le> i" using True "1.prems"(1) by simp
    show ?thesis
    proof (cases "anodes ! i = Some cur")
      case t: True
      then have "cmp_scan anodes cur i ll = Some (True, i)"
        using True a by (subst cmp_scan.simps) simp
      then show ?thesis by blast
    next
      case f: False
      from "1.IH" [OF True a f "1.prems"(1)]
      show ?thesis using True a f by (subst cmp_scan.simps) simp
    qed
  qed
qed

lemma find_rev_suffix:
  assumes "\<exists>b\<in>set B. P b"
  shows "\<exists>z\<in>set B. find P (rev (A @ B)) = Some z"
proof -
  from assms have "find P (rev B) \<noteq> None" by (auto simp: find_None_iff)
  then obtain z where z: "find P (rev B) = Some z" by auto
  then have "z \<in> set B" unfolding find_rev_split by auto
  moreover have "find P (rev (A @ B)) = Some z" using z by (simp add: find_append_)
  ultimately show ?thesis by blast
qed

lemma find_in_set: "find P xs = Some z \<Longrightarrow> z \<in> set xs"
  unfolding find_split by auto

lemma app_eq_split:
  "A @ V = B1 @ p # B2 \<Longrightarrow>
     (\<exists>v. A = B1 @ p # v \<and> B2 = v @ V) \<or> (\<exists>u. V = u @ p # B2 \<and> B1 = A @ u)"
proof (induction A arbitrary: B1)
  case Nil
  then show ?case by simp
next
  case (Cons a A)
  show ?case
  proof (cases B1)
    case Nil
    with Cons.prems show ?thesis by simp
  next
    case (Cons b B1')
    with Cons.prems have "A @ V = B1' @ p # B2" "a = b" by simp_all
    from Cons.IH [OF this(1)] show ?thesis using Cons \<open>a = b\<close> by auto
  qed
qed

lemma skel_head_prev:
  assumes sk: "skel ns hgt (head # xs)" and j: "j < hgt"
  shows "prev_n (lv ns head j) = Some head"
proof -
  have sk': "skel ns hgt ([] @ head # xs)" using sk by simp
  have "hg ns head = hgt" using sk unfolding skel_def by blast
  then have "lv ns head j = canon (hg ns) (ln ns) j [] head xs"
    using skel_lv [OF sk', of j] j by simp
  then show ?thesis by (simp add: canon_def prevAt_def)
qed

text \<open>The walk of \<open>Compare\<close> from a node before the one sought.\<close>

lemma cmp_loop_before:
  assumes "skel ns hgt (U @ cur # V @ x # W)"
    and "\<forall>j<hgt. anodes ! j = find (tall (hg ns) j) (rev (U @ cur # V @ [x]))"
    and "hgt \<le> length anodes"
    and "cur = head \<longrightarrow> hg ns x = hgt"
  shows "cmp_loop ns anodes cmp cur i = Some (cmp, True)"
  using assms
proof (induction "length U" arbitrary: U cur V i rule: less_induct)
  case less
  let ?H = "hg ns"
  note sk = less.prems(1)
  note an = less.prems(2)
  have hc: "1 \<le> ?H cur" "?H cur \<le> hgt" using skel_hg [OF sk, of cur] by auto
  have ll: "?H cur \<le> length anodes" using hc less.prems(3) by simp
  from cmp_scan_total [OF ll] obtain f i1 where
    sc: "cmp_scan anodes cur i (length (levels (ns cur))) = Some (f, i1)"
    unfolding hg_def by blast
  show ?case
  proof (cases f)
    case True
    then show ?thesis using sc by (subst cmp_loop.simps) simp
  next
    case False
    let ?k = "?H cur - 1"
    have k: "?k < ?H cur" "?k < hgt" using hc by simp_all
    have lne: "levels (ns cur) \<noteq> []" using hc by (auto simp: hg_def)
    have kl: "\<not> length anodes \<le> ?k" using k less.prems(3) by simp
    have tc: "tall ?H ?k cur" using k by (simp add: tall_def)
    have "\<exists>z\<in>set (cur # V @ [x]). find (tall ?H ?k) (rev (U @ cur # V @ [x])) = Some z"
      by (rule find_rev_suffix) (use tc in auto)
    then obtain z where z: "z \<in> set (cur # V @ [x])" "anodes ! ?k = Some z"
      using an k by auto
    have d: "distinct (U @ cur # V @ x # W)" using sk unfolding skel_def by blast
    show ?thesis
    proof (cases "cur = head")
      case True
      then have U: "U = []" using skel_head_first [OF sk] by simp
      have hx: "?H x = hgt" using True less.prems(4) by simp
      have tx: "tall ?H ?k x" using hx k by (simp add: tall_def)
      have "\<exists>u v. U @ cur # V @ [x] = u @ x # v \<and> tall ?H ?k x
                \<and> (\<forall>y\<in>set v. \<not> tall ?H ?k y)"
        by (rule exI [of _ "U @ cur # V"], rule exI [of _ "[]"]) (use tx in simp)
      then have "find (tall ?H ?k) (rev (U @ cur # V @ [x])) = Some x"
        unfolding find_rev_split .
      then have zx: "anodes ! ?k = Some x" using an k by simp
      have xh: "x \<noteq> head" using d True by auto
      have "\<exists>xs. U @ cur # V @ x # W = head # xs" using sk unfolding skel_def by blast
      then have sk0: "skel ns hgt (head # V @ x # W)" using sk U True by simp
      have pv: "prev_n (lv ns cur ?k) = Some head"
        using skel_head_prev [OF sk0 k(2)] True by simp
      show ?thesis
        using sc False lne kl zx xh pv
        by (subst cmp_loop.simps) (simp add: hg_def lv_def Let_def)
    next
      case nh: False
      from skel_prev [OF sk nh k(1)]
      obtain B1 p B2 where B: "U = B1 @ p # B2"
        and pv: "prev_n (lv ns cur ?k) = Some p" by blast
      have "p \<in> set U" using B by simp
      then have pz: "p \<noteq> z" using z(1) d by auto
      show ?thesis
      proof (cases "p = head")
        case True
        then show ?thesis using sc False lne kl z(2) pz pv
          by (subst cmp_loop.simps) (simp add: hg_def lv_def Let_def)
      next
        case ph: False
        have step: "cmp_loop ns anodes cmp cur i = cmp_loop ns anodes cmp p i1"
          using sc False lne kl z(2) pz pv ph
          by (subst cmp_loop.simps) (simp add: hg_def lv_def Let_def)
        have len: "length B1 < length U" using B by simp
        have sk': "skel ns hgt (B1 @ p # (B2 @ cur # V) @ x # W)" using sk B by simp
        have an': "\<forall>j<hgt. anodes ! j = find (tall ?H j) (rev (B1 @ p # (B2 @ cur # V) @ [x]))"
          using an B by simp
        have h': "p = head \<longrightarrow> ?H x = hgt" using ph by simp
        from less.hyps [OF len sk' an' less.prems(3) h']
        show ?thesis unfolding step .
      qed
    qed
  qed
qed

text \<open>The walk of \<open>Compare\<close> from a node after the one sought.\<close>

lemma cmp_loop_after:
  assumes "skel ns hgt (U @ x # V @ cur # W)"
    and "\<forall>j<hgt. anodes ! j = find (tall (hg ns) j) (rev (U @ [x]))"
    and "hgt \<le> length anodes"
  shows "cmp_loop ns anodes cmp cur i = Some (- cmp, True)"
  using assms
proof (induction "length V" arbitrary: V cur W i rule: less_induct)
  case less
  let ?H = "hg ns"
  note sk = less.prems(1)
  note an = less.prems(2)
  have sk2: "skel ns hgt ((U @ x # V) @ cur # W)" using sk by simp
  have hc: "1 \<le> ?H cur" "?H cur \<le> hgt" using skel_hg [OF sk, of cur] by auto
  have ll: "?H cur \<le> length anodes" using hc less.prems(3) by simp
  have d: "distinct (U @ x # V @ cur # W)" using sk unfolding skel_def by blast
  have notin: "\<And>j z. j < hgt \<Longrightarrow> anodes ! j = Some z \<Longrightarrow> z \<in> set (U @ [x])"
  proof -
    fix j z assume "j < hgt" "anodes ! j = Some z"
    then have "find (tall ?H j) (rev (U @ [x])) = Some z" using an by simp
    from find_in_set [OF this] show "z \<in> set (U @ [x])" by simp
  qed
  have cn: "cur \<notin> set (U @ [x])" using d by auto
  have "\<forall>j. i \<le> j \<and> j < ?H cur \<longrightarrow> anodes ! j \<noteq> Some cur"
    using notin cn hc by (metis less_le_trans)
  from cmp_scan_none [OF ll this]
  have sc: "cmp_scan anodes cur i (length (levels (ns cur))) = Some (False, max i (?H cur))"
    by (simp add: hg_def)
  let ?k = "?H cur - 1"
  have k: "?k < ?H cur" "?k < hgt" using hc by simp_all
  have lne: "levels (ns cur) \<noteq> []" using hc by (auto simp: hg_def)
  have kl: "\<not> length anodes \<le> ?k" using k less.prems(3) by simp
  have nh: "cur \<noteq> head" using skel_head_first [OF sk2] by simp
  from skel_prev [OF sk2 nh k(1)]
  obtain B1 p B2 where B: "U @ x # V = B1 @ p # B2" "tall ?H ?k p"
      "\<forall>b\<in>set B2. \<not> tall ?H ?k b"
    and pv: "prev_n (lv ns cur ?k) = Some p" by blast
  have "(U @ [x]) @ V = B1 @ p # B2" using B(1) by simp
  from app_eq_split [OF this]
  consider v where "U @ [x] = B1 @ p # v" "B2 = v @ V"
    | u where "V = u @ p # B2" "B1 = (U @ [x]) @ u" by blast
  then show ?case
  proof cases
    case 1
    have "\<forall>b\<in>set v. \<not> tall ?H ?k b" using B(3) 1(2) by simp
    then have "find (tall ?H ?k) (rev (U @ [x])) = Some p"
      unfolding 1(1) find_rev_split using B(2) by blast
    then have "anodes ! ?k = Some p" using an k by simp
    then show ?thesis using sc lne kl pv
      by (subst cmp_loop.simps) (simp add: hg_def lv_def Let_def)
  next
    case 2
    have pV: "p \<in> set V" using 2(1) by simp
    then have pn: "p \<notin> set (U @ [x])" using d by auto
    have ne: "Some p \<noteq> anodes ! ?k" using notin [OF k(2), of p] pn by metis
    have "hd (U @ x # V @ cur # W) = head" using sk unfolding skel_def by auto
    then have "head \<in> set (U @ [x])" by (cases U) auto
    then have ph: "p \<noteq> head" using pn by auto
    have step: "cmp_loop ns anodes cmp cur i = cmp_loop ns anodes cmp p (max i (?H cur))"
      using sc lne kl pv ne ph
      by (subst cmp_loop.simps) (simp add: hg_def lv_def Let_def)
    have len: "length u < length V" using 2(1) by simp
    have sk': "skel ns hgt (U @ x # u @ p # (B2 @ cur # W))" using sk 2(1) by simp
    from less.hyps [OF len sk' an less.prems(3)]
    show ?thesis unfolding step .
  qed
qed

lemma two_split:
  assumes "a \<in> set full" "b \<in> set full" "a \<noteq> b"
  shows "(\<exists>U V W. full = U @ a # V @ b # W) \<or> (\<exists>U V W. full = U @ b # V @ a # W)"
proof -
  from assms(1) obtain U R where s: "full = U @ a # R" by (meson split_list)
  then have "b \<in> set U \<or> b \<in> set R" using assms(2,3) by auto
  then show ?thesis
  proof
    assume "b \<in> set U"
    then obtain U1 U2 where "U = U1 @ b # U2" by (meson split_list)
    then have "full = U1 @ b # U2 @ a # R" using s by simp
    then show ?thesis by blast
  next
    assume "b \<in> set R"
    then obtain R1 R2 where "R = R1 @ b # R2" by (meson split_list)
    then have "full = U @ a # R1 @ b # R2" using s by simp
    then show ?thesis by blast
  qed
qed

text \<open>
  \<open>Compare\<close> of two entries, the first of which comes before the second, and
  the other way round.
\<close>

lemma Compare_order:
  fixes r :: "('id::zero, 't) ropeImpl"
  assumes inv: "rope_inv r xs" and s: "head # xs = U @ na # V @ nb # W"
  shows "Compare r (id_n (nodes r na)) (id_n (nodes r nb)) = Some (- 1, True)"
    and "Compare r (id_n (nodes r nb)) (id_n (nodes r na)) = Some (1, True)"
proof -
  let ?ns = "nodes r"
  let ?a = "id_n (?ns na)"
  let ?b = "id_n (?ns nb)"
  have sk: "skel ?ns (height r) (U @ na # V @ nb # W)" using inv s by (simp add: rope_inv_def)
  have d: "distinct (U @ na # V @ nb # W)" using sk unfolding skel_def by blast
  have ina: "na \<in> set (head # xs)" and inb: "nb \<in> set (head # xs)" using s by simp_all
  have ne: "na \<noteq> nb" using d by auto
  have ba: "byId r ?a = Some na" using rope_inv_index [OF inv, of ?a na] ina by simp
  have bb: "byId r ?b = Some nb" using rope_inv_index [OF inv, of ?b nb] inb by simp
  have idne: "?a \<noteq> ?b" using ba bb ne by auto
  have h: "height r \<le> maxHeight" using inv by (simp add: rope_inv_def)
  have hh: "hg ?ns head = height r" using sk unfolding skel_def by blast
  have hb: "hg ?ns nb \<le> height r" "hg ?ns na \<le> height r"
    using skel_hg [OF sk, of nb] skel_hg [OF sk, of na] by auto
  have s1: "head # xs = (U @ na # V) @ nb # W" using s by simp
  from rseekNodes_correct [OF inv s1] obtain tb where
    tb: "rseekNodes r nb = Some tb" "length tb = maxHeight"
        "\<forall>j<height r. tb ! j = find (tall (hg ?ns) j) (rev (U @ na # V @ [nb]))" by auto
  from rseekNodes_correct [OF inv s] obtain ta where
    ta: "rseekNodes r na = Some ta" "length ta = maxHeight"
        "\<forall>j<height r. ta ! j = find (tall (hg ?ns) j) (rev (U @ [na]))" by auto
  have lb: "height r \<le> length tb" and la: "height r \<le> length ta" using tb(2) ta(2) h by simp_all
  show "Compare r ?a ?b = Some (- 1, True)"
  proof (cases "hg ?ns na < hg ?ns nb")
    case True
    then have "na \<noteq> head" using hh hb by auto
    then have c: "na = head \<longrightarrow> hg ?ns nb = height r" by simp
    from cmp_loop_before [OF sk tb(3) lb c, of "- 1" 1]
    show ?thesis using True idne ba bb tb(1) by (simp add: Compare_def hg_def)
  next
    case False
    from cmp_loop_after [OF sk ta(3) la, of 1 1]
    show ?thesis using False idne ba bb ta(1) by (simp add: Compare_def hg_def)
  qed
  show "Compare r ?b ?a = Some (1, True)"
  proof (cases "hg ?ns nb < hg ?ns na")
    case True
    from cmp_loop_after [OF sk ta(3) la, of "- 1" 1]
    show ?thesis using True idne ba bb ta(1) by (simp add: Compare_def hg_def)
  next
    case False
    have c: "na = head \<longrightarrow> hg ?ns nb = height r" using False hh hb by auto
    from cmp_loop_before [OF sk tb(3) lb c, of 1 1]
    show ?thesis using False idne ba bb tb(1) by (simp add: Compare_def hg_def)
  qed
qed

section \<open>Errors of Splice\<close>

lemma Splice_error_only:
  "Splice sizer rnd r afterId deleteUntilId insertId data = Some ((rem, Some e), r1) \<Longrightarrow>
     rem = [] \<and> r1 = r \<and>
     (e = ErrBadAnchor \<longrightarrow> byId r afterId = None \<and> afterId \<noteq> 0) \<and>
     (e = ErrIdExists \<longrightarrow>
        (byId r afterId \<noteq> None \<or> afterId = 0) \<and>
        (\<exists>iid. insertId = Some iid \<and> byId r iid \<noteq> None)) \<and>
     (e = ErrNegativeLength \<longrightarrow>
        (byId r afterId \<noteq> None \<or> afterId = 0) \<and>
        (\<exists>iid. insertId = Some iid \<and> byId r iid = None) \<and>
        word_sless (case sizer of None \<Rightarrow> 0 | Some f \<Rightarrow> f data) 0)"
  unfolding Splice_def Let_def
  by (auto split: option.splits if_splits)

lemma Splice_BadAnchor:
  "byId r afterId = None \<Longrightarrow> afterId \<noteq> 0 \<Longrightarrow>
     Splice sizer rnd r afterId deleteUntilId insertId data = Some (([], Some ErrBadAnchor), r)"
  by (simp add: Splice_def)

lemma Splice_IdExists:
  "byId r afterId \<noteq> None \<or> afterId = 0 \<Longrightarrow> byId r iid \<noteq> None \<Longrightarrow>
     Splice sizer rnd r afterId deleteUntilId (Some iid) data = Some (([], Some ErrIdExists), r)"
  by (auto simp: Splice_def Let_def split: option.splits)

lemma Splice_NegativeLength:
  "byId r afterId \<noteq> None \<or> afterId = 0 \<Longrightarrow> byId r iid = None \<Longrightarrow>
   word_sless (case sizer of None \<Rightarrow> 0 | Some f \<Rightarrow> f data) 0 \<Longrightarrow>
     Splice sizer rnd r afterId deleteUntilId (Some iid) data
       = Some (([], Some ErrNegativeLength), r)"
  by (auto simp: Splice_def Let_def split: option.splits)

text \<open>
  Claim C2. \<open>Splice\<close> returns \<open>ErrBadAnchor\<close> exactly when \<open>afterId\<close> is neither in
  the identifier index nor the zero identifier; \<open>ErrIdExists\<close> exactly when the
  anchor is valid, \<open>insertId\<close> is given and already in the index;
  \<open>ErrNegativeLength\<close> exactly when the anchor is valid, \<open>insertId\<close> is given and
  fresh, and the length capability of the payload reports a negative length (the
  length is 0 for a payload type without the capability). Whenever an error is
  returned, the state after the call is the state before it, and the removed
  list is empty.
\<close>

theorem C2_Splice_errors:
  "((\<exists>rem r1. Splice sizer rnd r afterId deleteUntilId insertId data
                 = Some ((rem, Some ErrBadAnchor), r1))
      \<longleftrightarrow> byId r afterId = None \<and> afterId \<noteq> 0)
   \<and> ((\<exists>rem r1. Splice sizer rnd r afterId deleteUntilId insertId data
                 = Some ((rem, Some ErrIdExists), r1))
      \<longleftrightarrow> (byId r afterId \<noteq> None \<or> afterId = 0)
          \<and> (\<exists>iid. insertId = Some iid \<and> byId r iid \<noteq> None))
   \<and> ((\<exists>rem r1. Splice sizer rnd r afterId deleteUntilId insertId data
                 = Some ((rem, Some ErrNegativeLength), r1))
      \<longleftrightarrow> (byId r afterId \<noteq> None \<or> afterId = 0)
          \<and> (\<exists>iid. insertId = Some iid \<and> byId r iid = None)
          \<and> word_sless (case sizer of None \<Rightarrow> 0 | Some f \<Rightarrow> f data) 0)
   \<and> (\<forall>rem e r1. Splice sizer rnd r afterId deleteUntilId insertId data
                 = Some ((rem, Some e), r1) \<longrightarrow> r1 = r \<and> rem = [])"
proof (intro conjI)
  show "(\<exists>rem r1. Splice sizer rnd r afterId deleteUntilId insertId data
                 = Some ((rem, Some ErrBadAnchor), r1))
      \<longleftrightarrow> byId r afterId = None \<and> afterId \<noteq> 0"
    using Splice_error_only [of sizer rnd r afterId deleteUntilId insertId data _ ErrBadAnchor]
      Splice_BadAnchor
    by blast
  show "(\<exists>rem r1. Splice sizer rnd r afterId deleteUntilId insertId data
                 = Some ((rem, Some ErrIdExists), r1))
      \<longleftrightarrow> (byId r afterId \<noteq> None \<or> afterId = 0)
          \<and> (\<exists>iid. insertId = Some iid \<and> byId r iid \<noteq> None)"
    using Splice_error_only [of sizer rnd r afterId deleteUntilId insertId data _ ErrIdExists]
      Splice_IdExists
    by blast
  show "(\<exists>rem r1. Splice sizer rnd r afterId deleteUntilId insertId data
                 = Some ((rem, Some ErrNegativeLength), r1))
      \<longleftrightarrow> (byId r afterId \<noteq> None \<or> afterId = 0)
          \<and> (\<exists>iid. insertId = Some iid \<and> byId r iid = None)
          \<and> word_sless (case sizer of None \<Rightarrow> 0 | Some f \<Rightarrow> f data) 0"
    using Splice_error_only [of sizer rnd r afterId deleteUntilId insertId data _ ErrNegativeLength]
      Splice_NegativeLength
    by blast
  show "\<forall>rem e r1. Splice sizer rnd r afterId deleteUntilId insertId data
                 = Some ((rem, Some e), r1) \<longrightarrow> r1 = r \<and> rem = []"
    using Splice_error_only [of sizer rnd r afterId deleteUntilId insertId data] by blast
qed

theorem C2_Splice_errors_witness:
  "Splice (Some word_of_int) 1 (New :: (nat, int) ropeImpl) 7 None (Some 1) 5
     = Some (([], Some ErrBadAnchor), New)
   \<and> Splice (Some word_of_int) 1 (New :: (nat, int) ropeImpl) 0 None (Some 0) 5
     = Some (([], Some ErrIdExists), New)
   \<and> Splice (Some word_of_int) 1 (New :: (nat, int) ropeImpl) 0 None (Some 1) (- 1)
     = Some (([], Some ErrNegativeLength), New)"
  using C2_Splice_errors [of "Some word_of_int" 1 "New :: (nat, int) ropeImpl" 7 None "Some 1" 5]
    C2_Splice_errors [of "Some word_of_int" 1 "New :: (nat, int) ropeImpl" 0 None "Some 0" 5]
    C2_Splice_errors [of "Some word_of_int" 1 "New :: (nat, int) ropeImpl" 0 None "Some 1" "- 1"]
  by (auto simp: New_def NewRoot_def)

section \<open>Iteration from an absent identifier\<close>

text \<open>
  Claim C10. When \<open>afterId\<close> is not in the identifier index, \<open>Iter afterId\<close>
  yields nothing: the call returns normally (no panic, no error), the consumer
  was never called, and the rope is as before.
\<close>

theorem C10_Iter_absent:
  "byId r afterId = None \<Longrightarrow> Iter r afterId yield = Some ([], r)"
  by (simp add: Iter_def)

theorem C10_Iter_absent_witness:
  "Iter (New :: (nat, int) ropeImpl) 5 (\<lambda>i d r. Some (True, r)) = Some ([], New)"
  using C10_Iter_absent [of "New :: (nat, int) ropeImpl" 5 "\<lambda>i d r. Some (True, r)"]
  by (simp add: New_def NewRoot_def)

section \<open>The claims on reachable ropes\<close>

lemma reach_New: "reach (New :: ('id::zero, 't::zero) ropeImpl)"
  unfolding New_def by (rule reach_NewRoot)

lemma reach_ex1: "reach ex1"
  unfolding ex1_def by (rule reach_Splice_the [OF reach_New])

lemma reach_ex2: "reach ex2"
  unfolding ex2_def by (rule reach_Splice_the [OF reach_ex1])

lemma reach_ex3: "reach ex3"
  unfolding ex3_def by (rule reach_Splice_the [OF reach_ex2])

lemma reach_exz1: "reach exz1"
  unfolding exz1_def by (rule reach_Splice_the [OF reach_New])

lemma reach_exz2: "reach exz2"
  unfolding exz2_def by (rule reach_Splice_the [OF reach_exz1])

lemma reach_exq: "reach exq"
  unfolding exq_def by (rule reach_Splice_the [OF reach_ex1])

lemma rope_inv_ran: "rope_inv r xs \<Longrightarrow> ran (byId r) = set (head # xs)"
  unfolding ran_def using rope_inv_index [of r xs] by auto

lemma anchor_inv:
  assumes "reach r" "byId r A = Some a"
  obtains pre rest where "rope_inv r (pre @ rest)" "a = last (head # pre)"
proof -
  from assms(1) obtain xs where inv: "rope_inv r xs" using reach_inv by blast
  then have "a \<in> set (head # xs)" using rope_inv_index [OF inv] assms(2) by blast
  from anchor_split [OF this] inv that show ?thesis by blast
qed

lemma path0_prefix:
  "skel ns hgt (A @ rest) \<Longrightarrow> A \<noteq> [] \<Longrightarrow> path0 ns (last A) p \<Longrightarrow> \<exists>rest'. rest = p @ rest'"
proof (induction p arbitrary: A rest)
  case Nil then show ?case by simp
next
  case (Cons b p)
  from Cons.prems(3) have nx: "next0 ns (last A) = Some b" and pp: "path0 ns b p" by simp_all
  from skel_next0 [OF Cons.prems(1,2)] nx obtain rest1 where r: "rest = b # rest1"
    by (cases rest) auto
  have "skel ns hgt ((A @ [b]) @ rest1)" using Cons.prems(1) r by simp
  from Cons.IH [OF this] pp obtain rest' where "rest1 = p @ rest'" by auto
  then show ?case using r by simp
qed

lemma cut_prefix:
  "\<forall>e\<in>set es. id_n (ns e) \<noteq> X \<Longrightarrow> id_n (ns x) = X \<Longrightarrow> cut ns X (es @ x # rest') = es @ [x]"
  by (induction es) auto

lemma rope_inv_id_inj:
  "rope_inv r xs \<Longrightarrow> a \<in> set (head # xs) \<Longrightarrow> b \<in> set (head # xs) \<Longrightarrow>
     id_n (nodes r a) = id_n (nodes r b) \<Longrightarrow> a = b"
  using rope_inv_index [of r xs "id_n (nodes r a)" a] rope_inv_index [of r xs "id_n (nodes r a)" b]
  by simp

lemma Splice_no_delete:
  "d = None \<or> d = Some anchor \<Longrightarrow>
   Splice sizer rnd r anchor d ins data = Some ((rem, err), r') \<Longrightarrow> rem = []"
  unfolding Splice_def splice_def Let_def
  by (auto split: option.splits if_splits prod.splits)

lemma Find_live:
  assumes "reach r" "byId r i = Some a"
  shows "\<exists>v. Find r i = Some v"
proof -
  from assms(1) obtain xs where inv: "rope_inv r xs" using reach_inv by blast
  then have "a \<in> set (head # xs)" using rope_inv_index [OF inv] assms(2) by blast
  then obtain A1 post where s: "head # xs = A1 @ a # post" by (meson split_list)
  have "skel (nodes r) (height r) (A1 @ a # post)" using inv s by (simp add: rope_inv_def)
  from Find_loop_correct [OF this, of 0] show ?thesis using assms(2) by (simp add: Find_def)
qed

subsection \<open>Deleting a run\<close>

text \<open>
  Claim C1. In a reachable rope, let the anchor name a live entry and let the
  entries \<open>es\<close> and then \<open>x\<close> follow it along level 0, \<open>x\<close> carrying the
  identifier \<open>X\<close>, different from the anchor. Then \<open>Splice anchor (Some X) None\<close>
  returns without error; the removed list holds exactly the records
  (identifier, length, payload) of \<open>es\<close> and \<open>x\<close>, in sequence order; afterwards
  none of their identifiers is in the index, and \<open>Len\<close> is smaller by exactly
  the sum of their lengths (in Go's integer arithmetic). And whenever no deletion
  is asked for (no \<open>deleteUntilId\<close>, or the anchor itself), the removed list of a
  call that returns is empty.
\<close>

theorem C1_delete_run:
  fixes r :: "('id::zero, 't::zero) ropeImpl"
  assumes "reach r" and "byId r anchor = Some a" and "path0 (nodes r) a (es @ [x])"
    and "id_n (nodes r x) = X" and "X \<noteq> anchor"
  shows "(\<exists>r'. Splice sizer rnd r anchor (Some X) None data
                = Some ((map (rec_of (nodes r)) (es @ [x]), None), r')
           \<and> (\<forall>e\<in>set (es @ [x]). byId r' (id_n (nodes r e)) = None)
           \<and> Len_rope r' = Len_rope r - sum_list (map (\<lambda>e. Len (dl (nodes r e))) (es @ [x])))
       \<and> (\<forall>d ins rem err r'. (d = None \<or> d = Some anchor) \<longrightarrow>
           Splice sizer rnd r anchor d ins data = Some ((rem, err), r') \<longrightarrow> rem = [])"
proof -
  from anchor_inv [OF assms(1,2)] obtain pre rest where
    inv: "rope_inv r (pre @ rest)" and a: "a = last (head # pre)" by blast
  have sk: "skel (nodes r) (height r) ((head # pre) @ rest)" using inv by (simp add: rope_inv_def)
  then have d: "distinct ((head # pre) @ rest)" unfolding skel_def by blast
  from path0_prefix [OF sk _ assms(3) [unfolded a]] obtain rest' where
    rest: "rest = (es @ [x]) @ rest'" by auto
  have xin: "x \<in> set (head # pre @ rest)" using rest by simp
  have "\<forall>e\<in>set es. id_n (nodes r e) \<noteq> X"
  proof
    fix e assume e: "e \<in> set es"
    then have "e \<in> set (head # pre @ rest)" using rest by simp
    moreover have "e \<noteq> x" using d rest e by auto
    ultimately show "id_n (nodes r e) \<noteq> X"
      using rope_inv_id_inj [OF inv _ xin, of e] assms(4) by metis
  qed
  then have cut: "cut (nodes r) X rest = es @ [x]"
    using cut_prefix [of es "nodes r" X x rest'] assms(4) rest by simp
  note h = randomHeight_bounds [of rnd]
  from splice_correct [OF inv a, of "randomHeight rnd" False 0 True X 0 data] h
  obtain r' where sp: "splice r (randomHeight rnd) a True X False 0 0 data
        = Some (map (rec_of (nodes r)) (es @ [x]), r')"
    and len: "len r' = len r - sum_list (map (ln (nodes r)) (es @ [x]))"
    and byr: "\<forall>i. byId r' i = (if i \<in> (\<lambda>a. id_n (nodes r a)) ` set (es @ [x])
                                then None else byId r i)"
    unfolding cut by auto
  have "Splice sizer rnd r anchor (Some X) None data
      = Some ((map (rec_of (nodes r)) (es @ [x]), None), r')"
    using assms(2,5) sp by (simp add: Splice_def)
  moreover have "\<forall>e\<in>set (es @ [x]). byId r' (id_n (nodes r e)) = None"
    using byr by auto
  moreover have "Len_rope r' = Len_rope r - sum_list (map (\<lambda>e. Len (dl (nodes r e))) (es @ [x]))"
    using len by (simp add: Len_rope_def ln_def [abs_def])
  ultimately have "\<exists>r'. Splice sizer rnd r anchor (Some X) None data
                = Some ((map (rec_of (nodes r)) (es @ [x]), None), r')
           \<and> (\<forall>e\<in>set (es @ [x]). byId r' (id_n (nodes r e)) = None)
           \<and> Len_rope r' = Len_rope r - sum_list (map (\<lambda>e. Len (dl (nodes r e))) (es @ [x]))"
    by blast
  moreover have "\<forall>d ins rem err r'. (d = None \<or> d = Some anchor) \<longrightarrow>
           Splice sizer rnd r anchor d ins data = Some ((rem, err), r') \<longrightarrow> rem = []"
    using Splice_no_delete by blast
  ultimately show ?thesis by blast
qed

lemma ex3_vals:
  "byId ex3 1 = Some 1" "path0 (nodes ex3) 1 ([2] @ [3])" "id_n (nodes ex3 3) = 3"
  "Len_rope ex3 = 15"
  "map (rec_of (nodes ex3)) ([2] @ [3])
     = [\<lparr>Id_r = 2, Len_r = 6, Data_r = 6\<rparr>, \<lparr>Id_r = 3, Len_r = 4, Data_r = 4\<rparr>]"
  "sum_list (map (\<lambda>e. Len (dl (nodes ex3 e))) ([2] @ [3])) = 10"
  "id_n (nodes ex3 2) = 2"
  by code_simp+

theorem C1_delete_run_witness:
  "reach ex3 \<and> byId ex3 1 = Some 1 \<and> path0 (nodes ex3) 1 ([2] @ [3]) \<and> id_n (nodes ex3 3) = 3
   \<and> (3 :: nat) \<noteq> 1
   \<and> fst (the (Splice sizer_nat 1 ex3 1 (Some 3) None 0))
       = ([\<lparr>Id_r = 2, Len_r = 6, Data_r = 6\<rparr>, \<lparr>Id_r = 3, Len_r = 4, Data_r = 4\<rparr>], None)
   \<and> byId (snd (the (Splice sizer_nat 1 ex3 1 (Some 3) None 0))) 2 = None
   \<and> byId (snd (the (Splice sizer_nat 1 ex3 1 (Some 3) None 0))) 3 = None
   \<and> Len_rope (snd (the (Splice sizer_nat 1 ex3 1 (Some 3) None 0))) = 5"
proof -
  have n: "(3 :: nat) \<noteq> 1" by simp
  from C1_delete_run [OF reach_ex3 ex3_vals(1) ex3_vals(2) ex3_vals(3) n, of sizer_nat 1 0]
  obtain r' where s: "Splice sizer_nat 1 ex3 1 (Some 3) None 0
        = Some ((map (rec_of (nodes ex3)) ([2] @ [3]), None), r')"
    and b: "\<forall>e\<in>set ([2] @ [3]). byId r' (id_n (nodes ex3 e)) = None"
    and l: "Len_rope r' = Len_rope ex3 - sum_list (map (\<lambda>e. Len (dl (nodes ex3 e))) ([2] @ [3]))"
    by blast
  have "byId r' 2 = None" "byId r' 3 = None" using b ex3_vals(3,7) by auto
  moreover have "Len_rope r' = 5" using l unfolding ex3_vals(4,6) by simp
  ultimately show ?thesis using reach_ex3 ex3_vals(1,2,3) s ex3_vals(5) by simp
qed

subsection \<open>The total length\<close>

text \<open>
  Claim C3. In every state reached from \<open>New\<close> or \<open>NewRoot\<close> by successful
  operations, \<open>Len\<close> is the sum of the lengths of the live entries, which are
  the nodes that the identifier index names (the zero entry among them, with
  length 0). The sum is taken in Go's integer arithmetic.
\<close>

theorem C3_Len_is_sum:
  "reach r \<Longrightarrow> Len_rope r = (\<Sum>a\<in>ran (byId r). Len (dl (nodes r a)))"
proof -
  assume "reach r"
  then obtain xs where inv: "rope_inv r xs" using reach_inv by blast
  then have d: "distinct (head # xs)" by (simp add: rope_inv_def skel_def)
  have "len r = sum_list (map (ln (nodes r)) (head # xs))" using inv by (simp add: rope_inv_def)
  also have "\<dots> = (\<Sum>a\<in>set (head # xs). ln (nodes r) a)"
    using d by (rule sum_list_distinct_conv_sum_set)
  finally show ?thesis
    unfolding rope_inv_ran [OF inv] by (simp add: Len_rope_def ln_def)
qed

lemma ex2_vals:
  "Len_rope ex2 = 11"
  "byId ex2 0 = Some 0" "byId ex2 1 = Some 1" "byId ex2 2 = Some 2" "byId ex2 7 = None"
  "Len (dl (nodes ex2 0)) = 0" "Len (dl (nodes ex2 1)) = 5" "Len (dl (nodes ex2 2)) = 6"
  by code_simp+

theorem C3_Len_is_sum_witness:
  "reach ex2 \<and> Len_rope ex2 = (\<Sum>a\<in>ran (byId ex2). Len (dl (nodes ex2 a))) \<and> Len_rope ex2 = 11"
  using C3_Len_is_sum [OF reach_ex2] reach_ex2 ex2_vals(1) by simp

subsection \<open>Deleting up to the anchor itself\<close>

text \<open>
  Claim C8. In a reachable rope, for every live identifier \<open>A\<close>,
  \<open>Splice A (Some A) None data\<close> returns an empty removed list and no error,
  and the state after the call is the state before it: no entry, link,
  counter, index entry, total length or \<open>lastId\<close> has changed.
\<close>

theorem C8_Splice_same_anchor:
  fixes r :: "('id::zero, 't::zero) ropeImpl"
  assumes "reach r" "byId r A = Some a"
  shows "Splice sizer rnd r A (Some A) None data = Some (([], None), r)"
proof -
  from anchor_inv [OF assms] obtain pre rest where
    inv: "rope_inv r (pre @ rest)" and a: "a = last (head # pre)" by blast
  note h = randomHeight_bounds [of rnd]
  from splice_correct [OF inv a, of "randomHeight rnd" False 0 False 0 0 data] h
  have "splice r (randomHeight rnd) a False 0 False 0 0 data = Some ([], r)" by auto
  then show ?thesis using assms(2) by (simp add: Splice_def)
qed

theorem C8_Splice_same_anchor_witness:
  "reach ex2 \<and> byId ex2 1 = Some 1
   \<and> Splice sizer_nat 5 ex2 1 (Some 1) None 0 = Some (([], None), ex2)"
  using C8_Splice_same_anchor [OF reach_ex2 ex2_vals(3), of sizer_nat 5 0] reach_ex2 ex2_vals(3)
  by simp

subsection \<open>Reading with an absent identifier\<close>

text \<open>
  Claim C9. In a reachable rope, for an identifier that is not in the index,
  \<open>Find\<close> returns \<open>-1\<close> and \<open>Info\<close> the zero-valued record; \<open>Between\<close> and
  \<open>Compare\<close> return \<open>(0, false)\<close> when either argument is absent. The calls
  return normally. These operations are functions of the state: they return a
  value and no state, so they cannot modify the rope.
\<close>

theorem C9_absent_reads:
  fixes r :: "('id::zero, 't::zero) ropeImpl"
  assumes "reach r"
  shows "(byId r i = None \<longrightarrow> Find r i = Some (- 1) \<and> Info r i = Some zeroInfo)
       \<and> (byId r a = None \<or> byId r b = None \<longrightarrow>
            Between r a b = Some (0, False) \<and> Compare r a b = Some (0, False))"
proof -
  have F: "\<And>i. byId r i = None \<Longrightarrow> Find r i = Some (- 1)" by (simp add: Find_def)
  have m: "word_sless (- 1 :: gint) 0" by (simp add: word_sless_alt)
  have B: "byId r a = None \<or> byId r b = None \<Longrightarrow> Between r a b = Some (0, False)"
  proof (cases "byId r a")
    case None
    then show ?thesis using F m by (simp add: Between_def)
  next
    case (Some x)
    assume "byId r a = None \<or> byId r b = None"
    then have nb: "byId r b = None" using Some by simp
    from Find_live [OF assms Some] obtain v where "Find r a = Some v" by blast
    then show ?thesis using F [OF nb] m by (simp add: Between_def)
  qed
  have C: "byId r a = None \<or> byId r b = None \<Longrightarrow> Compare r a b = Some (0, False)"
    by (auto simp: Compare_def split: option.splits)
  show ?thesis using F B C by (simp add: Info_def)
qed

theorem C9_absent_reads_witness:
  "reach ex2 \<and> byId ex2 7 = None
   \<and> Find ex2 7 = Some (- 1) \<and> Info ex2 7 = Some zeroInfo
   \<and> Between ex2 1 7 = Some (0, False) \<and> Compare ex2 1 7 = Some (0, False)
   \<and> Between ex2 7 1 = Some (0, False) \<and> Compare ex2 7 1 = Some (0, False)"
  using C9_absent_reads [OF reach_ex2, of 7 1 7] C9_absent_reads [OF reach_ex2, of 7 7 1]
    reach_ex2 ex2_vals(5)
  by simp

subsection \<open>The last identifier after an insertion\<close>

text \<open>
  Claim C5, at an input where the code departs from it. The rope \<open>exz1\<close> holds
  one entry, 1, of length 0, so it is not empty and its last identifier is 1,
  not the anchor's. Inserting entry 2 (of length 1) after the head puts 2
  before 1: entry 1 is still the last one (it has no successor, and 2 has the
  successor 1), and the claim says that \<open>LastId\<close> stays 1. The code sets it to
  2, because it takes a total length of 0 for an empty list.
\<close>

theorem C5_LastId_failing_input:
  "LastId exz1 = 1 \<and> byId exz1 1 = Some 1 \<and> next0 (nodes exz1) head = Some 1
   \<and> Splice sizer_nat 1 exz1 0 None (Some 1) 0 = Some (([], Some ErrIdExists), exz1)
   \<and> fst (the (Splice sizer_nat 1 exz1 0 None (Some 2) 1)) = ([], None)
   \<and> LastId exz2 = 2
   \<and> map_option Next_i (Info exz2 2) = Some 1 \<and> map_option Next_i (Info exz2 1) = Some 0
   \<and> next0 (nodes exz2) 1 = None"
proof -
  have "LastId exz1 = 1" "byId exz1 1 = Some 1" "next0 (nodes exz1) head = Some 1"
    "fst (the (Splice sizer_nat 1 exz1 0 None (Some 2) 1)) = ([], None)"
    "LastId exz2 = 2"
    "map_option Next_i (Info exz2 2) = Some 1" "map_option Next_i (Info exz2 1) = Some 0"
    "next0 (nodes exz2) 1 = None" "byId exz1 0 = Some 0"
    by code_simp+
  moreover from this have
    "Splice sizer_nat 1 exz1 0 None (Some 1) 0 = Some (([], Some ErrIdExists), exz1)"
    by (intro Splice_IdExists) simp_all
  ultimately show ?thesis by simp
qed

subsection \<open>Positions: \<open>Find\<close> and \<open>ByPosition\<close>\<close>

lemma sint_add_fit:
  fixes a b :: gint
  assumes "0 \<le> sint a" "0 \<le> sint b" "sint a + sint b < 2 ^ 63"
  shows "sint (a + b) = sint a + sint b"
proof -
  have "sint (a + b) = signed_take_bit 63 (sint a + sint b)"
    by (simp add: sint_word_ariths)
  also have "\<dots> = sint a + sint b"
    by (rule signed_take_bit_int_eq_self) (use assms in auto)
  finally show ?thesis .
qed

lemma sint_sub_fit:
  fixes a b :: gint
  assumes "0 \<le> sint b" "sint b \<le> sint a"
  shows "sint (a - b) = sint a - sint b"
proof -
  have u: "sint a < 2 ^ 63" using sint_lt [of a] by simp
  have "sint (a - b) = signed_take_bit 63 (sint a - sint b)"
    by (simp add: sint_word_ariths)
  also have "\<dots> = sint a - sint b"
    by (rule signed_take_bit_int_eq_self) (use assms u in auto)
  finally show ?thesis .
qed

lemma isum_append: "isum ns (A @ B) = isum ns A + isum ns B"
  by (simp add: isum_def)

lemma isum_Cons: "isum ns (a # B) = sint (ln ns a) + isum ns B"
  by (simp add: isum_def)

lemma isum_Nil: "isum ns [] = 0"
  by (simp add: isum_def)

lemma isum_nonneg: "\<forall>a\<in>set ys. 0 \<le> sint (ln ns a) \<Longrightarrow> 0 \<le> isum ns ys"
  unfolding isum_def by (induction ys) auto

lemma fits_nonneg: "fits ns ys \<Longrightarrow> 0 \<le> isum ns ys"
  using isum_nonneg [of ys ns] by (simp add: fits_def)

lemma fits_sub: "fits ns (A @ B @ C) \<Longrightarrow> fits ns B"
proof -
  assume f: "fits ns (A @ B @ C)"
  then have "0 \<le> isum ns A" "0 \<le> isum ns C"
    using isum_nonneg [of A ns] isum_nonneg [of C ns] by (auto simp: fits_def)
  then show "fits ns B" using f by (auto simp: fits_def isum_append)
qed

lemma fits_prefix: "fits ns (A @ C) \<Longrightarrow> fits ns A"
  using fits_sub [of ns "[]" A C] by simp

lemma fits_suffix: "fits ns (A @ C) \<Longrightarrow> fits ns C"
  using fits_sub [of ns A C "[]"] by simp

lemma wsum_sint: "fits ns ys \<Longrightarrow> sint (sum_list (map (ln ns) ys)) = isum ns ys"
proof (induction ys)
  case Nil
  then show ?case by (simp add: isum_def)
next
  case (Cons a ys)
  have f: "fits ns ys" using fits_suffix [of ns "[a]" ys] Cons.prems by simp
  from Cons.IH [OF f] have ih: "sint (sum_list (map (ln ns) ys)) = isum ns ys" .
  have a: "0 \<le> sint (ln ns a)" using Cons.prems by (simp add: fits_def)
  have b: "0 \<le> isum ns ys" using fits_nonneg [OF f] .
  have c: "sint (ln ns a) + isum ns ys < 2 ^ 63" using Cons.prems by (simp add: fits_def isum_Cons)
  have "sint (ln ns a + sum_list (map (ln ns) ys)) = sint (ln ns a) + sint (sum_list (map (ln ns) ys))"
    by (rule sint_add_fit) (use a b c ih in simp_all)
  then show ?case using ih by (simp add: isum_Cons)
qed

text \<open>The first inner loop of \<open>ByPosition\<close> at height \<open>h\<close>, from the node \<open>e\<close>.\<close>

lemma bp_advance_correct:
  assumes "skel ns hgt (P @ e # Q)" and "fits ns (P @ e # Q)" and "h < hg ns e"
    and "isum ns P < sint target" and "sint target \<le> isum ns (P @ e # Q)"
  shows "\<exists>P' e' Q'. P @ e # Q = P' @ e' # Q' \<and> h < hg ns e'
      \<and> bp_advance ns h e (target - sum_list (map (ln ns) P))
          = Some (e', target - sum_list (map (ln ns) P'), False)
      \<and> isum ns P' < sint target
      \<and> sint target \<le> isum ns (P' @ e' # takeWhile (\<lambda>b. \<not> tall (hg ns) h b) Q')"
  using assms
proof (induction "length Q" arbitrary: P e Q rule: less_induct)
  case less
  let ?H = "hg ns" and ?L = "ln ns"
  let ?tw = "takeWhile (\<lambda>b. \<not> tall ?H h b) Q"
  let ?p = "target - sum_list (map ?L P)"
  note sk = less.prems(1) and fit = less.prems(2) and th = less.prems(3)
  have lvq: "lv ns e h = canon ?H ?L h P e Q" using skel_lv [OF sk th] .
  have sts: "subtreesize (lv ns e h) = sum_list (map ?L (e # ?tw))"
    by (simp add: lvq canon_def seg_def)
  have nx: "next_n (lv ns e h) = find (tall ?H h) Q"
    by (simp add: lvq canon_def nextAt_def)
  obtain R where R: "Q = ?tw @ R" by (metis takeWhile_dropWhile_id)
  have fitP: "fits ns P" using fits_prefix [OF fit] .
  have "fits ns (P @ (e # ?tw) @ R)" using fit R by simp
  then have fitS: "fits ns (e # ?tw)" by (rule fits_sub)
  have sP: "sint (sum_list (map ?L P)) = isum ns P" using wsum_sint [OF fitP] .
  have sS: "sint (sum_list (map ?L (e # ?tw))) = isum ns (e # ?tw)" using wsum_sint [OF fitS] .
  have sp: "sint ?p = sint target - isum ns P"
    using sint_sub_fit [of "sum_list (map ?L P)" target] sP fits_nonneg [OF fitP] less.prems(4)
    by simp
  have cmp: "word_sless (subtreesize (lv ns e h)) ?p \<longleftrightarrow> isum ns (e # ?tw) < sint target - isum ns P"
    unfolding sts word_sless_alt sS sp ..
  show ?case
  proof (cases "isum ns (e # ?tw) < sint target - isum ns P")
    case False
    have "bp_advance ns h e ?p = Some (e, ?p, False)"
      using th cmp False by (subst bp_advance.simps) (simp add: hg_def lv_def)
    moreover have "sint target \<le> isum ns (P @ e # ?tw)"
      using False by (simp add: isum_append)
    ultimately show ?thesis using th less.prems(4) by blast
  next
    case True
    have "find (tall ?H h) Q \<noteq> None"
    proof
      assume "find (tall ?H h) Q = None"
      then have "\<forall>b\<in>set Q. \<not> tall ?H h b" by (simp add: find_None_iff)
      then have twQ: "?tw = Q" by (simp add: takeWhile_eq_all_conv)
      have "isum ns (e # Q) < sint target - isum ns P" using True unfolding twQ .
      then have "isum ns (P @ e # Q) < sint target" by (simp add: isum_append)
      then show False using less.prems(5) by simp
    qed
    then obtain n where n: "find (tall ?H h) Q = Some n" by auto
    then obtain u v where uv: "Q = u @ n # v" "tall ?H h n" "\<forall>y\<in>set u. \<not> tall ?H h y"
      unfolding find_split by blast
    have tw: "?tw = u" unfolding uv(1) using takeWhile_split [OF uv(2,3)] .
    have pe: "?p - subtreesize (lv ns e h) = target - sum_list (map ?L (P @ e # u))"
      unfolding sts tw by simp
    have "bp_advance ns h e ?p = bp_advance ns h n (?p - subtreesize (lv ns e h))"
      using th cmp True nx n by (subst bp_advance.simps) (simp add: hg_def lv_def)
    then have step: "bp_advance ns h e ?p
        = bp_advance ns h n (target - sum_list (map ?L (P @ e # u)))"
      by (simp only: pe)
    have len: "length v < length Q" using uv(1) by simp
    have sk': "skel ns hgt ((P @ e # u) @ n # v)" using sk uv(1) by simp
    have fit': "fits ns ((P @ e # u) @ n # v)" using fit uv(1) by simp
    have th': "h < ?H n" using uv(2) by (simp add: tall_def)
    have lo': "isum ns (P @ e # u) < sint target" using True tw by (simp add: isum_append)
    have hi': "sint target \<le> isum ns ((P @ e # u) @ n # v)" using less.prems(5) uv(1) by simp
    from less.hyps [OF len sk' fit' th' lo' hi']
    show ?thesis unfolding step uv(1) by simp
  qed
qed

lemma tw0_Nil:
  assumes "skel ns hgt (P @ e # Q)"
  shows "takeWhile (\<lambda>b. \<not> tall (hg ns) 0 b) Q = []"
proof (cases Q)
  case Nil then show ?thesis by simp
next
  case (Cons b Q')
  have "1 \<le> hg ns b" using skel_hg [OF assms, of b] Cons by simp
  then show ?thesis using Cons by (simp add: tall_def)
qed

text \<open>The loop of \<open>ByPosition\<close> over the heights, without the bias.\<close>

lemma bp_descend_correct:
  assumes "skel ns hgt (P @ e # Q)" and "fits ns (P @ e # Q)" and "n \<le> hg ns e"
    and "isum ns P < sint target" and "sint target \<le> isum ns (P @ e # Q)"
  shows "\<exists>P' e' Q'. P @ e # Q = P' @ e' # Q'
      \<and> bp_descend ns False n e (target - sum_list (map (ln ns) P))
          = Some (e', target - sum_list (map (ln ns) P'))
      \<and> isum ns P' < sint target
      \<and> (0 < n \<longrightarrow> sint target \<le> isum ns (P' @ [e']))"
  using assms
proof (induction n arbitrary: P e Q)
  case 0
  then show ?case by auto
next
  case (Suc h)
  have th: "h < hg ns e" using Suc.prems(3) by simp
  from bp_advance_correct [OF Suc.prems(1,2) th Suc.prems(4,5)]
  obtain P1 e1 Q1 where s1: "P @ e # Q = P1 @ e1 # Q1" and h1: "h < hg ns e1"
    and adv: "bp_advance ns h e (target - sum_list (map (ln ns) P))
          = Some (e1, target - sum_list (map (ln ns) P1), False)"
    and lo1: "isum ns P1 < sint target"
    and hi1: "sint target \<le> isum ns (P1 @ e1 # takeWhile (\<lambda>b. \<not> tall (hg ns) h b) Q1)"
    by blast
  have bias: "\<And>p. bp_bias ns False h e1 p = Some (e1, p)"
    by (subst bp_bias.simps) simp
  have step: "bp_descend ns False (Suc h) e (target - sum_list (map (ln ns) P))
      = bp_descend ns False h e1 (target - sum_list (map (ln ns) P1))"
    using adv bias by simp
  have sk1: "skel ns hgt (P1 @ e1 # Q1)" using Suc.prems(1) s1 by simp
  have fit1: "fits ns (P1 @ e1 # Q1)" using Suc.prems(2) s1 by simp
  have hi: "sint target \<le> isum ns (P1 @ e1 # Q1)" using Suc.prems(5) s1 by simp
  show ?case
  proof (cases h)
    case 0
    have "sint target \<le> isum ns (P1 @ [e1])"
      using hi1 tw0_Nil [OF sk1] 0 by simp
    then show ?thesis unfolding step s1 using 0 lo1 by auto
  next
    case (Suc h')
    have n1: "h \<le> hg ns e1" using h1 by simp
    from Suc.IH [OF sk1 fit1 n1 lo1 hi]
    show ?thesis unfolding step s1 using Suc by auto
  qed
qed

lemma Splice_dl:
  fixes r :: "('id::zero, 't::zero) ropeImpl"
  assumes inv: "rope_inv r xs"
    and run: "Splice sizer rnd r afterId deleteUntilId insertId data = Some (res, r1)"
  shows "\<exists>xs'. rope_inv r1 xs'
      \<and> (\<forall>a\<in>set xs'. a \<in> set xs \<and> dl (nodes r1 a) = dl (nodes r a)
            \<or> 0 \<le> sint (Len (dl (nodes r1 a))))"
proof (cases "byId r afterId")
  case None
  then have "afterId \<noteq> 0" using rope_inv_zero [OF inv] by auto
  then have "r1 = r" using None run by (simp add: Splice_def)
  then show ?thesis using inv by blast
next
  case (Some a)
  then have "a \<in> set (head # xs)" using rope_inv_index [OF inv] by blast
  from anchor_split [OF this] obtain pre rest where
    xs: "xs = pre @ rest" and a: "a = last (head # pre)" by blast
  have inv': "rope_inv r (pre @ rest)" using inv xs by simp
  note h = randomHeight_bounds [of rnd]
  let ?dd = "case deleteUntilId of None \<Rightarrow> False | Some d \<Rightarrow> d \<noteq> afterId"
  let ?du = "case deleteUntilId of None \<Rightarrow> 0 | Some d \<Rightarrow> if d \<noteq> afterId then d else 0"
  show ?thesis
  proof (cases insertId)
    case None
    have f: "False \<longrightarrow> byId r 0 = None" by simp
    from splice_correct_dl [OF inv' a h [THEN conjunct1] h [THEN conjunct2] f,
        of ?dd ?du 0 data]
    obtain r' xs' where sp: "splice r (randomHeight rnd) a ?dd ?du False 0 0 data
          = Some (if ?dd then map (rec_of (nodes r)) (cut (nodes r) ?du rest) else [], r')"
      and inv1: "rope_inv r' xs'"
      and old: "\<forall>a\<in>set xs'. a \<in> set (pre @ rest) \<and> dl (nodes r' a) = dl (nodes r a)
              \<or> False \<and> dl (nodes r' a) = \<lparr>Len = 0, Data = data\<rparr>"
      by blast
    have "r1 = r'" using run Some None sp by (simp add: Splice_def Let_def)
    then show ?thesis using inv1 old xs by blast
  next
    case (Some iid)
    note ins = this
    let ?len = "case sizer of None \<Rightarrow> 0 | Some f \<Rightarrow> f data"
    show ?thesis
    proof (cases "byId r iid \<noteq> None \<or> word_sless ?len 0")
      case True
      then have "r1 = r" using run \<open>byId r afterId = Some a\<close> ins
        by (auto simp: Splice_def Let_def split: if_splits)
      then show ?thesis using inv by blast
    next
      case False
      then have f: "True \<longrightarrow> byId r iid = None" and nn: "0 \<le> sint ?len"
        by (auto simp: word_sless_alt)
      from splice_correct_dl [OF inv' a h [THEN conjunct1] h [THEN conjunct2] f,
          of ?dd ?du ?len data]
      obtain r' xs' where sp: "splice r (randomHeight rnd) a ?dd ?du True iid ?len data
            = Some (if ?dd then map (rec_of (nodes r)) (cut (nodes r) ?du rest) else [], r')"
        and inv1: "rope_inv r' xs'"
        and old: "\<forall>a\<in>set xs'. a \<in> set (pre @ rest) \<and> dl (nodes r' a) = dl (nodes r a)
                \<or> True \<and> dl (nodes r' a) = \<lparr>Len = ?len, Data = data\<rparr>"
        by blast
      have r1: "r1 = r'" using run \<open>byId r afterId = Some a\<close> ins sp False
        by (simp add: Splice_def Let_def)
      have "\<forall>a\<in>set xs'. a \<in> set xs \<and> dl (nodes r' a) = dl (nodes r a)
            \<or> 0 \<le> sint (Len (dl (nodes r' a)))"
      proof
        fix b assume "b \<in> set xs'"
        with old have "b \<in> set (pre @ rest) \<and> dl (nodes r' b) = dl (nodes r b)
            \<or> dl (nodes r' b) = \<lparr>Len = ?len, Data = data\<rparr>" by blast
        then show "b \<in> set xs \<and> dl (nodes r' b) = dl (nodes r b)
            \<or> 0 \<le> sint (Len (dl (nodes r' b)))"
          using nn xs by auto
      qed
      then show ?thesis using inv1 r1 by blast
    qed
  qed
qed

text \<open>No entry of a reachable rope has a negative length.\<close>

lemma reach_nonneg:
  "reach r \<Longrightarrow> \<forall>a\<in>ran (byId r). 0 \<le> sint (Len (dl (nodes r a)))"
proof (induction rule: reach.induct)
  case (reach_NewRoot root)
  have inv: "rope_inv (NewRoot root :: ('a, 'b) ropeImpl) []" by (rule rope_inv_NewRoot)
  have "ln (nodes (NewRoot root :: ('a, 'b) ropeImpl)) head = 0"
    using inv by (simp add: rope_inv_def)
  then show ?case unfolding rope_inv_ran [OF inv] by (simp add: ln_def)
next
  case (reach_Splice r sizer rnd afterId deleteUntilId insertId data res r1)
  from reach_inv [OF reach_Splice.hyps(1)] obtain xs where inv: "rope_inv r xs" by blast
  from Splice_dl [OF inv reach_Splice.hyps(2)] obtain xs' where
    inv1: "rope_inv r1 xs'"
    and old: "\<forall>a\<in>set xs'. a \<in> set xs \<and> dl (nodes r1 a) = dl (nodes r a)
            \<or> 0 \<le> sint (Len (dl (nodes r1 a)))" by blast
  have ih: "\<forall>a\<in>set (head # xs). 0 \<le> sint (Len (dl (nodes r a)))"
    using reach_Splice.IH unfolding rope_inv_ran [OF inv] .
  have h0: "Len (dl (nodes r1 head)) = 0" using inv1 by (simp add: rope_inv_def ln_def)
  show ?case unfolding rope_inv_ran [OF inv1]
  proof
    fix b assume "b \<in> set (head # xs')"
    then have "b = head \<or> b \<in> set xs'" by simp
    then show "0 \<le> sint (Len (dl (nodes r1 b)))"
    proof
      assume "b = head" then show ?thesis using h0 by simp
    next
      assume "b \<in> set xs'"
      with old have "b \<in> set xs \<and> dl (nodes r1 b) = dl (nodes r b)
            \<or> 0 \<le> sint (Len (dl (nodes r1 b)))" by blast
      then show ?thesis using ih by auto
    qed
  qed
next
  case (reach_attach r e)
  have "byId (iter_attach e r) = byId r"
    "\<And>a. dl (nodes (iter_attach e r) a) = dl (nodes r a)"
    by (simp_all add: iter_attach_def)
  then show ?case using reach_attach.IH by simp
next
  case (reach_detach r e update r1)
  have "byId r1 = byId r \<and> (\<forall>a. dl (nodes r1 a) = dl (nodes r a))"
    using reach_detach.hyps(2) by (auto simp: iter_detach_def split: option.splits)
  then show ?case using reach_detach.IH by simp
qed

text \<open>
  The entry that holds a position: there is one entry only whose span, without
  its start and with its end, has the position.
\<close>

lemma span_unique_aux:
  assumes f: "fits ns (U @ e # V @ e' # W)"
    and "isum ns (U @ e # V) < T" and "T \<le> isum ns (U @ [e])"
  shows False
proof -
  have "fits ns ((U @ [e]) @ V @ (e' # W))" using f by simp
  then have "fits ns V" by (rule fits_sub)
  then have "0 \<le> isum ns V" by (rule fits_nonneg)
  then show False using assms(2,3) by (simp add: isum_append isum_Cons isum_Nil)
qed

lemma span_unique:
  assumes d: "distinct full" and f: "fits ns full"
    and s: "full = P @ e # Q" and s': "full = P' @ e' # Q'"
    and b: "isum ns P < T" "T \<le> isum ns (P @ [e])"
    and b': "isum ns P' < T" "T \<le> isum ns (P' @ [e'])"
  shows "P = P' \<and> e = e'"
proof (cases "e = e'")
  case True
  have "distinct (P @ e # Q)" using d s by simp
  from split_unique [OF this, of P' Q'] s s' True show ?thesis by simp
next
  case False
  have "e \<in> set full" unfolding s by simp
  moreover have "e' \<in> set full" unfolding s' by simp
  ultimately have "(\<exists>U V W. full = U @ e # V @ e' # W) \<or> (\<exists>U V W. full = U @ e' # V @ e # W)"
    using False by (rule two_split)
  then
  consider U V W where "full = U @ e # V @ e' # W"
    | U V W where "full = U @ e' # V @ e # W" by blast
  then have False
  proof cases
    case 1
    have dd: "distinct (P @ e # Q)" "distinct (P' @ e' # Q')" using d s s' by simp_all
    have "P @ e # Q = U @ e # (V @ e' # W)" using s 1 by simp
    from split_unique [OF dd(1) this] have P: "P = U" by simp
    have "P' @ e' # Q' = (U @ e # V) @ e' # W" using s' 1 by simp
    from split_unique [OF dd(2) this] have P': "P' = U @ e # V" by simp
    show False using span_unique_aux [of ns U e V e' W T] f 1 b' b P P' by simp
  next
    case 2
    have dd: "distinct (P @ e # Q)" "distinct (P' @ e' # Q')" using d s s' by simp_all
    have "P' @ e' # Q' = U @ e' # (V @ e # W)" using s' 2 by simp
    from split_unique [OF dd(2) this] have P': "P' = U" by simp
    have "P @ e # Q = (U @ e' # V) @ e # W" using s 2 by simp
    from split_unique [OF dd(1) this] have P: "P = U @ e' # V" by simp
    show False using span_unique_aux [of ns U e' V e W T] f 2 b' b P P' by simp
  qed
  then show ?thesis ..
qed

lemma ByPosition_Find:
  fixes r :: "('id::zero, 't::zero) ropeImpl"
  assumes inv: "rope_inv r xs" and f: "fits (nodes r) (head # xs)"
    and s: "head # xs = Px @ x # Qx" and pos: "0 < sint (ln (nodes r) x)"
  shows "Find r (id_n (nodes r x)) = Some (sum_list (map (ln (nodes r)) (Px @ [x])))
       \<and> ByPosition r (sum_list (map (ln (nodes r)) (Px @ [x]))) False
           = Some (id_n (nodes r x), 0)"
proof -
  let ?ns = "nodes r"
  let ?t = "sum_list (map (ln ?ns) (Px @ [x]))"
  have sk: "skel ?ns (height r) (Px @ x # Qx)" using inv s by (simp add: rope_inv_def)
  have sk0: "skel ?ns (height r) ([] @ head # xs)" using inv by (simp add: rope_inv_def)
  have d: "distinct (head # xs)" using sk0 by (simp add: skel_def)
  have xin: "x \<in> set (head # xs)" using s by simp
  have bx: "byId r (id_n (?ns x)) = Some x" using rope_inv_index [OF inv, of "id_n (?ns x)" x] xin by simp
  have F: "Find r (id_n (?ns x)) = Some ?t"
    using Find_loop_correct [OF sk, of 0] bx by (simp add: Find_def ln_def)
  have fp: "fits ?ns ((Px @ [x]) @ Qx)" using f s by simp
  have fx: "fits ?ns (Px @ [x])" using fits_prefix [OF fp] .
  have st: "sint ?t = isum ?ns (Px @ [x])" using wsum_sint [OF fx] .
  have fP: "fits ?ns Px" using fits_prefix [OF fx] .
  have lo: "isum ?ns Px < sint ?t" unfolding st using pos by (simp add: isum_append isum_Cons isum_Nil)
  have P0: "0 \<le> isum ?ns Px" using fits_nonneg [OF fP] .
  have tpos: "0 < sint ?t" using lo P0 by simp
  have "0 \<le> isum ?ns Qx" using fits_nonneg [OF fits_suffix [OF fp]] .
  then have hi: "sint ?t \<le> isum ?ns (head # xs)"
    unfolding st s by (simp add: isum_append isum_Cons isum_Nil)
  have sl: "sint (len r) = isum ?ns (head # xs)"
    using wsum_sint [OF f] inv by (simp add: rope_inv_def)
  have c1: "\<not> word_sless ?t 0" using tpos by (simp add: word_sless_alt)
  have c2: "?t \<noteq> 0" using tpos by auto
  have c3: "\<not> word_sless (len r) ?t" using hi sl by (simp add: word_sless_alt)
  have hh: "height r \<le> hg ?ns head" using sk0 by (simp add: skel_def)
  have lo0: "isum ?ns [] < sint ?t" using tpos by (simp add: isum_Nil)
  have hi0: "sint ?t \<le> isum ?ns ([] @ head # xs)" using hi by simp
  have f0: "fits ?ns ([] @ head # xs)" using f by simp
  from bp_descend_correct [OF sk0 f0 hh lo0 hi0]
  obtain P' e' Q' where s': "head # xs = P' @ e' # Q'"
    and ds: "bp_descend ?ns False (height r) head ?t = Some (e', ?t - sum_list (map (ln ?ns) P'))"
    and lo': "isum ?ns P' < sint ?t"
    and hi': "0 < height r \<longrightarrow> sint ?t \<le> isum ?ns (P' @ [e'])"
    by auto
  have "0 < height r" using sk0 by (simp add: skel_def)
  then have hi'': "sint ?t \<le> isum ?ns (P' @ [e'])" using hi' by simp
  have hx: "sint ?t \<le> isum ?ns (Px @ [x])" using st by simp
  from span_unique [OF d f s' s lo' hi'' lo hx]
  have eq: "P' = Px" "e' = x" by simp_all
  have "ByPosition r ?t False = Some (id_n (?ns x), Len (dl (?ns x)) - (?t - sum_list (map (ln ?ns) Px)))"
    using c1 c2 c3 ds eq by (simp add: ByPosition_def)
  moreover have "Len (dl (?ns x)) - (?t - sum_list (map (ln ?ns) Px)) = 0"
    by (simp add: ln_def)
  ultimately show ?thesis using F by simp
qed

lemma live_path:
  assumes "reach r" and "path0 (nodes r) head xs"
    and "next0 (nodes r) (last (head # xs)) = None"
  shows "ran (byId r) = set (head # xs)"
proof -
  from reach_inv [OF assms(1)] obtain xs' where inv: "rope_inv r xs'" by blast
  have sk: "skel (nodes r) (height r) ([head] @ xs')" using inv by (simp add: rope_inv_def)
  from path0_prefix [OF sk _ ] assms(2) obtain rest where r: "xs' = xs @ rest" by auto
  have sk2: "skel (nodes r) (height r) ((head # xs) @ rest)" using sk r by simp
  from skel_next0 [OF sk2] assms(3) have "rest = []" by (cases rest) auto
  then show ?thesis using rope_inv_ran [OF inv] r by simp
qed

lemma ex3_live:
  "path0 (nodes ex3) head [1, 2, 3]" "next0 (nodes ex3) (last (head # [1, 2, 3])) = None"
  "byId ex3 2 = Some 2"
  "Len (dl (nodes ex3 0)) = 0" "Len (dl (nodes ex3 1)) = 5" "Len (dl (nodes ex3 2)) = 6"
  "Len (dl (nodes ex3 3)) = 4"
  "Find ex3 2 = Some 11" "ByPosition ex3 11 False = Some (2, 0)"
  by code_simp+

text \<open>
  Claim C4, as it stands, at an input where it fails. The rope \<open>exq\<close> holds
  entry 1 of length 5 and, after it, entry 2 of length 0. Entry 2 is live and
  \<open>Find 2\<close> is 5, the end of entry 1 as well; \<open>ByPosition 5 false\<close> stops at
  the earlier entry and returns \<open>(1, 0)\<close>, not \<open>(2, 0)\<close>.
\<close>

theorem C4_zero_length_counterexample:
  "reach exq \<and> byId exq 2 = Some 2 \<and> Len (dl (nodes exq 2)) = 0
   \<and> Find exq 2 = Some 5 \<and> ByPosition exq 5 False = Some (1, 0)
   \<and> ByPosition exq 5 False \<noteq> Some (2, 0)"
proof -
  have "byId exq 2 = Some 2" "Len (dl (nodes exq 2)) = 0"
    "Find exq 2 = Some 5" "ByPosition exq 5 False = Some (1, 0)"
    by code_simp+
  then show ?thesis using reach_exq by simp
qed

text \<open>
  Claim C4, amended. In a reachable rope whose entry lengths add up (as
  integers) to less than \<open>2^63\<close>, for every identifier \<open>X\<close> in the index that is
  the zero identifier or whose entry has a positive length, \<open>Find X\<close> returns a
  position \<open>p\<close> and \<open>ByPosition p false\<close> returns \<open>(X, 0)\<close>.
\<close>

theorem C4_ByPosition_Find_positive:
  fixes r :: "('id::zero, 't::zero) ropeImpl"
  assumes "reach r" and "byId r X = Some x"
    and "X = 0 \<or> word_sless 0 (Len (dl (nodes r x)))"
    and "(\<Sum>a\<in>ran (byId r). sint (Len (dl (nodes r a)))) < 2 ^ 63"
  shows "\<exists>p. Find r X = Some p \<and> ByPosition r p False = Some (X, 0)"
proof -
  from reach_inv [OF assms(1)] obtain xs where inv: "rope_inv r xs" by blast
  have x: "x \<in> set (head # xs)" "id_n (nodes r x) = X"
    using rope_inv_index [OF inv, of X x] assms(2) by simp_all
  show ?thesis
  proof (cases "word_sless 0 (Len (dl (nodes r x)))")
    case True
    have d: "distinct (head # xs)" using inv by (simp add: rope_inv_def skel_def)
    have nn: "\<forall>a\<in>set (head # xs). 0 \<le> sint (ln (nodes r) a)"
      using reach_nonneg [OF assms(1)] unfolding rope_inv_ran [OF inv] by (simp add: ln_def)
    have "isum (nodes r) (head # xs) = (\<Sum>a\<in>set (head # xs). sint (ln (nodes r) a))"
      unfolding isum_def using d by (rule sum_list_distinct_conv_sum_set)
    also have "\<dots> < 2 ^ 63" using assms(4) unfolding rope_inv_ran [OF inv] by (simp add: ln_def)
    finally have f: "fits (nodes r) (head # xs)" using nn by (simp add: fits_def)
    from x(1) obtain Px Qx where s: "head # xs = Px @ x # Qx" by (meson split_list)
    have pos: "0 < sint (ln (nodes r) x)" using True by (simp add: word_sless_alt ln_def)
    from ByPosition_Find [OF inv f s pos] show ?thesis unfolding x(2) by blast
  next
    case False
    then have X0: "X = 0" using assms(3) by simp
    then have xh: "x = head" using rope_inv_zero [OF inv] assms(2) by simp
    have sk: "skel (nodes r) (height r) ([] @ head # xs)" using inv by (simp add: rope_inv_def)
    have "ln (nodes r) head = 0" using inv by (simp add: rope_inv_def)
    then have "Find r X = Some 0"
      using Find_loop_correct [OF sk, of 0] assms(2) xh by (simp add: Find_def ln_def)
    moreover have "ByPosition r 0 False = Some (X, 0)" using X0 by (simp add: ByPosition_def)
    ultimately show ?thesis by blast
  qed
qed

theorem C4_ByPosition_Find_positive_witness:
  "reach ex3 \<and> byId ex3 2 = Some 2 \<and> word_sless 0 (Len (dl (nodes ex3 2)))
   \<and> (\<Sum>a\<in>ran (byId ex3). sint (Len (dl (nodes ex3 a)))) < 2 ^ 63
   \<and> (\<exists>p. Find ex3 2 = Some p \<and> ByPosition ex3 p False = Some (2, 0))"
proof -
  have live: "ran (byId ex3) = {0, 1, 2, 3}"
    using live_path [OF reach_ex3 ex3_live(1,2)] by (auto simp: head_def)
  have l1: "Len (dl (nodes ex3 (Suc 0))) = 5" using ex3_live(5) by simp
  have sm: "(\<Sum>a\<in>ran (byId ex3). sint (Len (dl (nodes ex3 a)))) < 2 ^ 63"
    unfolding live by (simp add: ex3_live l1)
  have ps: "word_sless 0 (Len (dl (nodes ex3 2)))"
    by (simp add: ex3_live word_sless_alt)
  from C4_ByPosition_Find_positive [OF reach_ex3 ex3_live(3) disjI2 [OF ps] sm]
  show ?thesis using reach_ex3 ex3_live(3) ps sm by simp
qed
subsection \<open>The order of two entries\<close>


lemma ex3_cmp: "byId ex3 1 \<noteq> None" "byId ex3 3 \<noteq> None"
  by code_simp+

text \<open>
  Claim C6. In a reachable rope, for identifiers \<open>a\<close> and \<open>b\<close> that are both in
  the index, \<open>Compare a b\<close> returns a sign \<open>c\<close> with \<open>ok = true\<close>, and
  \<open>Compare b a\<close> returns \<open>- c\<close> with \<open>ok = true\<close>; \<open>Compare a a\<close> returns
  \<open>(0, true)\<close>. The calls return normally.
\<close>

theorem C6_Compare_antisym:
  fixes r :: "('id::zero, 't::zero) ropeImpl"
  assumes "reach r" and "byId r a \<noteq> None" and "byId r b \<noteq> None"
  shows "(\<exists>c. Compare r a b = Some (c, True) \<and> Compare r b a = Some (- c, True))
       \<and> Compare r a a = Some (0, True)"
proof -
  from reach_inv [OF assms(1)] obtain xs where inv: "rope_inv r xs" by blast
  have aa: "Compare r a a = Some (0, True)" using assms(2) by (simp add: Compare_def)
  have "\<exists>c. Compare r a b = Some (c, True) \<and> Compare r b a = Some (- c, True)"
  proof (cases "a = b")
    case True
    then have "Compare r a b = Some (0, True) \<and> Compare r b a = Some (- 0, True)"
      using aa by simp
    then show ?thesis by blast
  next
    case False
    from assms(2,3) obtain na nb where n: "byId r a = Some na" "byId r b = Some nb" by auto
    have ia: "na \<in> set (head # xs)" "id_n (nodes r na) = a"
      using rope_inv_index [OF inv, of a na] n(1) by simp_all
    have ib: "nb \<in> set (head # xs)" "id_n (nodes r nb) = b"
      using rope_inv_index [OF inv, of b nb] n(2) by simp_all
    have ne: "na \<noteq> nb" using False ia(2) ib(2) by auto
    from two_split [OF ia(1) ib(1) ne]
    consider U V W where "head # xs = U @ na # V @ nb # W"
      | U V W where "head # xs = U @ nb # V @ na # W" by blast
    then show ?thesis
    proof cases
      case 1
      from Compare_order [OF inv 1]
      have "Compare r a b = Some (- 1, True) \<and> Compare r b a = Some (- (- 1), True)"
        unfolding ia(2) ib(2) by simp
      then show ?thesis by blast
    next
      case 2
      from Compare_order [OF inv 2]
      have "Compare r a b = Some (1, True) \<and> Compare r b a = Some (- 1, True)"
        unfolding ia(2) ib(2) by simp
      then show ?thesis by blast
    qed
  qed
  then show ?thesis using aa by blast
qed

theorem C6_Compare_antisym_witness:
  "reach ex3 \<and> byId ex3 1 \<noteq> None \<and> byId ex3 3 \<noteq> None
   \<and> (\<exists>c. Compare ex3 1 3 = Some (c, True) \<and> Compare ex3 3 1 = Some (- c, True))
   \<and> Compare ex3 1 1 = Some (0, True)"
  using C6_Compare_antisym [OF reach_ex3 ex3_cmp] reach_ex3 ex3_cmp
  by simp

section \<open>The ends of ByPosition\<close>

lemma reach_exbig1: "reach exbig1"
  unfolding exbig1_def by (rule reach_Splice_the [OF reach_New])

lemma reach_exbig2: "reach exbig2"
  unfolding exbig2_def by (rule reach_Splice_the [OF reach_exbig1])

lemma exbig2_vals:
  "fst (the (Splice sizer_int 1 (New :: (nat, int) ropeImpl) 0 None (Some 1)
          9223372036854775807)) = ([], None)"
  "fst (the (Splice sizer_int 1 exbig1 1 None (Some 2) 1)) = ([], None)"
  "Len_rope exbig2 = - 9223372036854775808" "LastId exbig2 = 2"
  "ByPosition exbig2 (- 1) True = Some (0, 0)"
  by code_simp+

lemma ex3_ends:
  "LastId ex3 = 3" "ByPosition ex3 (- 1) True = Some (0, 0)"
  "ByPosition ex3 0 False = Some (0, 0)" "ByPosition ex3 16 False = Some (3, 0)"
  "ByPosition ex3 15 True = Some (3, 0)"
  by code_simp+

text \<open>
  Claim C7, as it stands, at an input where it fails. The rope \<open>exbig2\<close> is
  reached by two successful insertions, of entry 1 of length \<open>2^63 - 1\<close> and of
  entry 2 of length 1 after it. Its total length has wrapped around to
  \<open>- 2^63\<close> and its last identifier is 2. For the position \<open>- 1\<close>, which is
  negative and greater than \<open>Len\<close>, the claim asks for the zero identifier and
  for \<open>LastId\<close> at once; \<open>ByPosition\<close> tests \<open>position < 0\<close> first and returns
  the zero identifier.
\<close>

theorem C7_overflow_counterexample:
  "reach exbig2
   \<and> fst (the (Splice sizer_int 1 (New :: (nat, int) ropeImpl) 0 None (Some 1)
          9223372036854775807)) = ([], None)
   \<and> fst (the (Splice sizer_int 1 exbig1 1 None (Some 2) 1)) = ([], None)
   \<and> Len_rope exbig2 = - 9223372036854775808 \<and> LastId exbig2 = 2
   \<and> word_sless (Len_rope exbig2) (- 1)
   \<and> ByPosition exbig2 (- 1) True = Some (0, 0)
   \<and> ByPosition exbig2 (- 1) True \<noteq> Some (LastId exbig2, 0)"
  using reach_exbig2 exbig2_vals by (simp add: word_sless_alt)

text \<open>
  Claim C7, amended. In every rope state, \<open>ByPosition position biasAfter\<close>
  returns the zero identifier with offset 0 whenever \<open>position < 0\<close>, or
  \<open>position = 0\<close> and \<open>biasAfter\<close> is false. When that first case does not
  apply, it returns \<open>LastId\<close> with offset 0 whenever \<open>position > Len\<close>, or
  \<open>position = Len\<close> and \<open>biasAfter\<close> is true; the first case never applies
  there when the total length \<open>Len\<close> is not negative.
\<close>

theorem C7_ByPosition_ends:
  "(word_sless position 0 \<or> (position = 0 \<and> \<not> biasAfter)
      \<longrightarrow> ByPosition r position biasAfter = Some (0, 0))
   \<and> ((word_sless (Len_rope r) position \<or> (position = Len_rope r \<and> biasAfter))
        \<and> \<not> (word_sless position 0 \<or> (position = 0 \<and> \<not> biasAfter))
      \<longrightarrow> ByPosition r position biasAfter = Some (LastId r, 0))
   \<and> (word_sle 0 (Len_rope r)
        \<and> (word_sless (Len_rope r) position \<or> (position = Len_rope r \<and> biasAfter))
      \<longrightarrow> ByPosition r position biasAfter = Some (LastId r, 0))"
  by (auto simp: ByPosition_def Len_rope_def LastId_def word_sless_alt word_sle_eq)

theorem C7_ByPosition_ends_witness:
  "word_sless (- 1 :: gint) 0 \<and> ByPosition ex3 (- 1) True = Some (0, 0)
   \<and> ByPosition ex3 0 False = Some (0, 0)
   \<and> Len_rope ex3 = 15 \<and> LastId ex3 = 3 \<and> word_sle 0 (Len_rope ex3)
   \<and> word_sless (Len_rope ex3) 16 \<and> \<not> word_sless (16 :: gint) 0
   \<and> ByPosition ex3 16 False = Some (LastId ex3, 0)
   \<and> ByPosition ex3 (Len_rope ex3) True = Some (LastId ex3, 0)"
  using C7_ByPosition_ends [of "- 1" True ex3]
    C7_ByPosition_ends [of 0 False ex3]
    C7_ByPosition_ends [of 16 False ex3]
    C7_ByPosition_ends [of 15 True ex3]
    ex3_vals(4) ex3_ends(1)
  by (simp add: word_sless_alt word_sle_eq)

end
